theory Spec2Isabelle
  imports Main "HOL-Library.Word"
begin

unbundle bit_operations_syntax

section \<open>Values and errors\<close>

text \<open>
  A Go \<^verbatim>\<open>string\<close> and a Go \<^verbatim>\<open>[]byte\<close> are both byte sequences; the conversions
  \<^verbatim>\<open>[]byte(s)\<close> and \<^verbatim>\<open>string(b)\<close> keep the bytes, so both are modelled as \<open>byte list\<close>.
  \<^verbatim>\<open>int32\<close> is a 32-bit word read with \<open>sint\<close>. The text of an error is an ordinary
  \<open>string\<close>.
\<close>

type_synonym byte = "8 word"
type_synonym int32 = "32 word"

definition bytes :: "string \<Rightarrow> byte list" where
  "bytes s = map of_char s"

text \<open>
  The errors of errors.go, those of package io, and a network error carrying its text.
  \<open>ErrUnexpectedBody b\<close> stands for
  \<^verbatim>\<open>ErrMalformedResponse(fmt.Sprintf("unexpected body %q", b))\<close>: the quoting of \<^verbatim>\<open>%q\<close> is
  not rendered. \<open>Panic\<close> is not a Go error value: it marks a run-time panic, which unwinds
  through every caller; each call site of the model hands it up the same way it hands up
  an error.
\<close>

datatype error =
    EOF
  | ErrUnexpectedEOF
  | ErrShortWrite
  | ErrNet string
  | ErrNilOption
  | ErrNonASCII
  | ErrAuthFailure
  | ErrMalformedResponse string
  | ErrUnexpectedBody "byte list"
  | Panic string

text \<open>\<^verbatim>\<open>%v\<close> of an integer: its decimal digits.\<close>

fun fmt_nat :: "nat \<Rightarrow> string" where
  "fmt_nat n =
     (if n < 10 then [''0123456789'' ! n]
      else fmt_nat (n div 10) @ [''0123456789'' ! (n mod 10)])"

declare fmt_nat.simps [simp del]

definition fmt_int32 :: "int32 \<Rightarrow> string" where
  "fmt_int32 v = (if sint v < 0 then ''-'' @ fmt_nat (nat (- sint v)) else fmt_nat (nat (sint v)))"

section \<open>The transport\<close>

text \<open>
  The read side of the connection, as \<^verbatim>\<open>io.Reader\<close> sees it: the data still to arrive,
  in the pieces in which single \<^verbatim>\<open>Read\<close> calls will deliver it (a piece may be empty), and
  the condition the transport reports once the data is used up: a clean end of stream
  (\<open>None\<close>, \<^verbatim>\<open>io.EOF\<close>) or a network error such as an expired deadline. That condition
  is reported by every later call as well.
\<close>

datatype reader = Reader (chunks: "byte list list") (closed: "string option")

definition rerr :: "reader \<Rightarrow> error" where
  "rerr r = (case closed r of None \<Rightarrow> EOF | Some m \<Rightarrow> ErrNet m)"

text \<open>\<^verbatim>\<open>r.Read(p)\<close> with \<open>k = len(p)\<close>: the bytes stored in \<open>p\<close>, the error, the reader after.\<close>

fun Read :: "reader \<Rightarrow> nat \<Rightarrow> byte list \<times> error option \<times> reader" where
  "Read (Reader [] e) k = ([], Some (rerr (Reader [] e)), Reader [] e)"
| "Read (Reader (c # cs) e) k =
     (if length c \<le> k then (c, None, Reader cs e)
      else (take k c, None, Reader (drop k c # cs) e))"

definition pending :: "reader \<Rightarrow> nat" where
  "pending r = sum_list (map (\<lambda>c. Suc (length c)) (chunks r))"

text \<open>All the data the reader will still deliver.\<close>

definition stream :: "reader \<Rightarrow> byte list" where
  "stream r = concat (chunks r)"

lemma Read_pending:
  "Read r k = (bs, None, r') \<Longrightarrow> 0 < k \<Longrightarrow> pending r' < pending r"
  by (cases r; cases "chunks r") (auto simp: pending_def split: if_splits)

text \<open>
  \<^verbatim>\<open>io.ReadFull\<close> (\<^verbatim>\<open>io.ReadAtLeast\<close> with \<open>min = len(buf) = m\<close>); \<open>buf\<close> holds the bytes
  read so far.
\<close>

function ReadFull :: "reader \<Rightarrow> nat \<Rightarrow> byte list \<Rightarrow> byte list \<times> error option \<times> reader" where
  "ReadFull r m buf =
     (if length buf < m then
        (case Read r (m - length buf) of
           (bs, None, r') \<Rightarrow> ReadFull r' m (buf @ bs)
         | (bs, Some e, r') \<Rightarrow>
             if m \<le> length (buf @ bs) then (buf @ bs, None, r')
             else if 0 < length (buf @ bs) \<and> e = EOF then (buf @ bs, Some ErrUnexpectedEOF, r')
             else (buf @ bs, Some e, r'))
      else (buf, None, r))"
  by pat_completeness auto
termination
  by (relation "measure (\<lambda>(r, m, buf). pending r)") (auto dest: Read_pending [OF sym])

declare ReadFull.simps [simp del]

text \<open>\<^verbatim>\<open>binary.LittleEndian.Uint32\<close> and \<^verbatim>\<open>PutUint32\<close>.\<close>

definition Uint32 :: "byte list \<Rightarrow> int32" where
  "Uint32 b = ucast (b ! 0) OR push_bit 8 (ucast (b ! 1)) OR push_bit 16 (ucast (b ! 2))
     OR push_bit 24 (ucast (b ! 3))"

definition PutUint32 :: "int32 \<Rightarrow> byte list" where
  "PutUint32 v = [ucast v, ucast (drop_bit 8 v), ucast (drop_bit 16 v), ucast (drop_bit 24 v)]"

text \<open>
  \<^verbatim>\<open>binary.Read(r, binary.LittleEndian, &v)\<close> for an \<^verbatim>\<open>int32\<close>: four bytes through
  \<^verbatim>\<open>io.ReadFull\<close>; \<open>v\<close> keeps its value when the read fails.
\<close>

definition binary_Read :: "reader \<Rightarrow> int32 \<Rightarrow> error option \<times> int32 \<times> reader" where
  "binary_Read r v =
     (case ReadFull r 4 [] of
        (bs, Some e, r') \<Rightarrow> (Some e, v, r')
      | (bs, None, r') \<Rightarrow> (None, Uint32 bs, r'))"

text \<open>What \<^verbatim>\<open>io.ReadFull\<close> reports when the data runs out before its buffer is full.\<close>

definition short_read :: "reader \<Rightarrow> error" where
  "short_read r = (if stream r \<noteq> [] \<and> rerr r = EOF then ErrUnexpectedEOF else rerr r)"

text \<open>
  The write side of the connection: the bytes sent so far and, once the connection is broken,
  the network error that \<^verbatim>\<open>Write\<close> and \<^verbatim>\<open>SetDeadline\<close> report from then on.
\<close>

datatype conn = Conn (sent: "byte list") (fault: "string option")

definition conn_Write :: "conn \<Rightarrow> byte list \<Rightarrow> nat \<times> error option \<times> conn" where
  "conn_Write w bs =
     (case fault w of
        Some m \<Rightarrow> (0, Some (ErrNet m), w)
      | None \<Rightarrow> (length bs, None, Conn (sent w @ bs) None))"

definition SetDeadline :: "conn \<Rightarrow> error option" where
  "SetDeadline w = map_option ErrNet (fault w)"

text \<open>\<^verbatim>\<open>bytes.Buffer.WriteTo\<close> on a buffer holding \<open>buf\<close>.\<close>

definition Buffer_WriteTo :: "byte list \<Rightarrow> conn \<Rightarrow> int \<times> error option \<times> conn" where
  "Buffer_WriteTo buf w =
     (if 0 < length buf then
        (case conn_Write w buf of (m, e, w') \<Rightarrow>
           if length buf < m then (0, Some (Panic ''bytes.Buffer.WriteTo: invalid Write count''), w')
           else if e \<noteq> None then (int m, e, w')
           else if m \<noteq> length buf then (int m, Some ErrShortWrite, w')
           else (int m, None, w'))
      else (0, None, w))"

section \<open>packet.go\<close>

definition responseValue :: int32 where "responseValue = 0"
definition execCommand :: int32 where "execCommand = 2"
definition auth :: int32 where "auth = 3"
definition authResponse :: int32 where "authResponse = 2"

record pkt =
  Size :: int32
  ID :: int32
  Type :: int32
  body :: "byte list"

text \<open>\<^verbatim>\<open>&pkt{}\<close>\<close>

definition pkt0 :: pkt where
  "pkt0 = \<lparr>Size = 0, ID = 0, Type = 0, body = []\<rparr>"

definition newPkt :: "int32 \<Rightarrow> int32 \<Rightarrow> byte list \<Rightarrow> pkt" where
  "newPkt t i b = \<lparr>Size = word_of_nat (length b + 10), ID = i, Type = t, body = b\<rparr>"

definition Body :: "pkt \<Rightarrow> byte list" where
  "Body p = body p"

text \<open>The bytes \<^verbatim>\<open>WriteTo\<close> collects in its buffer.\<close>

definition wire :: "pkt \<Rightarrow> byte list" where
  "wire p = PutUint32 (Size p) @ PutUint32 (ID p) @ PutUint32 (Type p) @ (body p @ [0x00, 0x00])"

text \<open>
  \<^verbatim>\<open>make([]byte, 0, p.Size+4)\<close> panics when the capacity, an \<^verbatim>\<open>int32\<close> sum, is negative.
  Writes to a \<^verbatim>\<open>bytes.Buffer\<close> return no error.
\<close>

definition WriteTo :: "pkt \<Rightarrow> conn \<Rightarrow> int \<times> error option \<times> conn" where
  "WriteTo p w =
     (if sint (Size p + 4) < 0 then (0, Some (Panic ''makeslice: cap out of range''), w)
      else Buffer_WriteTo (wire p) w)"

text \<open>The end of \<^verbatim>\<open>ReadFrom\<close>, after the payload loop: the trailer check and the strip.\<close>

definition ReadFrom_trailer :: "pkt \<Rightarrow> int \<Rightarrow> int \<times> error option \<times> pkt" where
  "ReadFrom_trailer p n =
     (if length (body p) < 2 then (n, Some (Panic ''slice bounds out of range''), p)
      else if drop (length (body p) - 2) (body p) \<noteq> [0x00, 0x00]
        then (n, Some (ErrMalformedResponse ''invalid trailer''), p)
      else (n, None, p\<lparr>body := take (length (body p) - 2) (body p)\<rparr>))"

text \<open>
  The payload loop \<^verbatim>\<open>for i < p.Size-8\<close> and what follows it. \<open>err\<close> is the variable the
  loop tests: the named result of \<^verbatim>\<open>ReadFrom\<close>, last assigned by the \<^verbatim>\<open>binary.Read\<close> of
  the type field. \<open>err2\<close>, the error of the \<^verbatim>\<open>Read\<close> call, is used only in the return
  under that test. The loop has no bound of its own: not returning is \<open>None\<close>.
\<close>

partial_function (option) ReadFrom_loop ::
  "reader \<Rightarrow> pkt \<Rightarrow> error option \<Rightarrow> int \<Rightarrow> int32 \<Rightarrow> (int \<times> error option \<times> pkt \<times> reader) option" where
  "ReadFrom_loop r p err n i =
     (if sint i < sint (Size p - 8) then
        (if sint i < 0 \<or> int (length (body p)) < sint i
           then Some (n, Some (Panic ''slice bounds out of range''), p, r)
         else
           (case Read r (length (body p) - nat (sint i)) of (bs, err2, r') \<Rightarrow>
              let p' = p\<lparr>body := take (nat (sint i)) (body p) @ bs
                                   @ drop (nat (sint i) + length bs) (body p)\<rparr> in
              if err \<noteq> None then Some (n + int (length bs) + sint i, err2, p', r')
              else ReadFrom_loop r' p' err n (i + word_of_nat (length bs))))
      else (case ReadFrom_trailer p (n + sint i) of (n', e, p') \<Rightarrow> Some (n', e, p', r)))"

declare ReadFrom_loop.simps [code]

text \<open>
  \<^verbatim>\<open>p.ReadFrom(r)\<close>: the byte count, the error, the packet as the call leaves it and the
  reader after. \<^verbatim>\<open>make([]byte, p.Size-8)\<close> panics on a negative length.
\<close>

definition ReadFrom :: "pkt \<Rightarrow> reader \<Rightarrow> (int \<times> error option \<times> pkt \<times> reader) option" where
  "ReadFrom p r =
     (case binary_Read r (Size p) of
        (Some e, v, r1) \<Rightarrow> Some (0, Some e, p, r1)
      | (None, v, r1) \<Rightarrow>
          let p = p\<lparr>Size := v\<rparr> in
          if sint (Size p) < 10 then Some (4, Some (ErrMalformedResponse ''size too small''), p, r1)
          else
            (case binary_Read r1 (ID p) of
               (Some e, v, r2) \<Rightarrow> Some (4, Some e, p, r2)
             | (None, v, r2) \<Rightarrow>
                 let p = p\<lparr>ID := v\<rparr> in
                 (case binary_Read r2 (Type p) of
                    (Some e, v, r3) \<Rightarrow> Some (8, Some e, p, r3)
                  | (None, v, r3) \<Rightarrow>
                      let p = p\<lparr>Type := v\<rparr> in
                      if sint (Size p - 8) < 0
                        then Some (12, Some (Panic ''makeslice: len out of range''), p, r3)
                      else ReadFrom_loop r3 (p\<lparr>body := replicate (nat (sint (Size p - 8))) 0x00\<rparr>)
                             None 12 0)))"

text \<open>The packet as \<open>ReadFrom\<close> holds it when the payload loop starts.\<close>

definition framed :: "pkt \<Rightarrow> byte list \<Rightarrow> pkt" where
  "framed p s = p\<lparr>Size := Uint32 (take 4 s), ID := Uint32 (take 4 (drop 4 s)),
     Type := Uint32 (take 4 (drop 8 s)),
     body := replicate (nat (sint (Uint32 (take 4 s)) - 8)) 0x00\<rparr>"

section \<open>cmd.go\<close>

text \<open>
  An operand of \<^verbatim>\<open>fmt.Sprintln\<close> is an \<^verbatim>\<open>interface{}\<close>: a Go string, printed as it is,
  or any other value, printed by the \<^verbatim>\<open>%v\<close> rule of package fmt. That rule is the
  parameter \<open>fmtv\<close> of the functions below.
\<close>

datatype 'a operand = Str "byte list" | Val 'a

record 'a Cmd =
  cmd :: "byte list"
  args :: "'a operand list"

definition NewCmd :: "byte list \<Rightarrow> 'a Cmd" where
  "NewCmd s = \<lparr>cmd = s, args = []\<rparr>"

definition WithArgs :: "'a Cmd \<Rightarrow> 'a operand list \<Rightarrow> 'a Cmd" where
  "WithArgs c as = c\<lparr>args := as\<rparr>"

definition printArg :: "('a \<Rightarrow> byte list) \<Rightarrow> 'a operand \<Rightarrow> byte list" where
  "printArg fmtv a = (case a of Str s \<Rightarrow> s | Val v \<Rightarrow> fmtv v)"

text \<open>
  The loop of \<^verbatim>\<open>Sprintln\<close> over its operands: a space before every operand but the first.
\<close>

fun doPrintln :: "('a \<Rightarrow> byte list) \<Rightarrow> byte list \<Rightarrow> nat \<Rightarrow> 'a operand list \<Rightarrow> byte list" where
  "doPrintln fmtv buf argNum [] = buf @ bytes [CHR 0x0A]"
| "doPrintln fmtv buf argNum (a # as) =
     doPrintln fmtv ((if 0 < argNum then buf @ bytes '' '' else buf) @ printArg fmtv a)
       (argNum + 1) as"

definition Sprintln :: "('a \<Rightarrow> byte list) \<Rightarrow> 'a operand list \<Rightarrow> byte list" where
  "Sprintln fmtv as = doPrintln fmtv [] 0 as"

definition HasSuffix :: "byte list \<Rightarrow> byte list \<Rightarrow> bool" where
  "HasSuffix s suffix =
     (length suffix \<le> length s \<and> drop (length s - length suffix) s = suffix)"

definition TrimSuffix :: "byte list \<Rightarrow> byte list \<Rightarrow> byte list" where
  "TrimSuffix s suffix =
     (if HasSuffix s suffix then take (length s - length suffix) s else s)"

definition String :: "('a \<Rightarrow> byte list) \<Rightarrow> 'a Cmd \<Rightarrow> byte list" where
  "String fmtv c = TrimSuffix (Sprintln fmtv (Str (cmd c) # args c)) (bytes [CHR 0x0A])"

text \<open>
  What the spec asks of the rendering, in its words: the operands in order, separated by single
  spaces.
\<close>

fun space_joined :: "byte list list \<Rightarrow> byte list" where
  "space_joined [] = []"
| "space_joined [x] = x"
| "space_joined (x # y # zs) = x @ bytes '' '' @ space_joined (y # zs)"

section \<open>Ranging over a string\<close>

text \<open>
  \<^verbatim>\<open>for _, r := range body\<close> decodes \<open>body\<close> as UTF-8, one rune at a time, as
  \<^verbatim>\<open>utf8.DecodeRuneInString\<close> does: a byte that starts no valid encoding yields
  \<^verbatim>\<open>RuneError\<close> (U+FFFD) and width 1. Bytes are read as numbers; a mask is written as
  \<open>mod\<close>, a left shift as a multiplication, and the \<^verbatim>\<open>|\<close> of disjoint bit fields as \<open>+\<close>.
\<close>

definition RuneError :: nat where
  "RuneError = 0xFFFD"

text \<open>The table \<^verbatim>\<open>first\<close>: the width of the encoding a byte starts, 0 where it starts none.\<close>

definition first_width :: "nat \<Rightarrow> nat" where
  "first_width s0 =
     (if s0 < 0x80 then 1
      else if s0 < 0xC2 then 0
      else if s0 < 0xE0 then 2
      else if s0 < 0xF0 then 3
      else if s0 < 0xF5 then 4
      else 0)"

text \<open>The table \<^verbatim>\<open>acceptRanges\<close>: the bounds of the second byte.\<close>

definition accept_lo :: "nat \<Rightarrow> nat" where
  "accept_lo s0 = (if s0 = 0xE0 then 0xA0 else if s0 = 0xF0 then 0x90 else 0x80)"

definition accept_hi :: "nat \<Rightarrow> nat" where
  "accept_hi s0 = (if s0 = 0xED then 0x9F else if s0 = 0xF4 then 0x8F else 0xBF)"

definition DecodeRune :: "byte list \<Rightarrow> nat \<times> nat" where
  "DecodeRune s =
     (let n = length s in
      if n < 1 then (RuneError, 0)
      else
        let s0 = unat (s ! 0); sz = first_width s0 in
        if sz = 1 then (s0, 1)
        else if sz = 0 then (RuneError, 1)
        else if n < sz then (RuneError, 1)
        else
          let s1 = unat (s ! 1) in
          if s1 < accept_lo s0 \<or> accept_hi s0 < s1 then (RuneError, 1)
          else if sz \<le> 2 then ((s0 mod 0x20) * 0x40 + s1 mod 0x40, 2)
          else
            let s2 = unat (s ! 2) in
            if s2 < 0x80 \<or> 0xBF < s2 then (RuneError, 1)
            else if sz \<le> 3 then ((s0 mod 0x10) * 0x1000 + (s1 mod 0x40) * 0x40 + s2 mod 0x40, 3)
            else
              let s3 = unat (s ! 3) in
              if s3 < 0x80 \<or> 0xBF < s3 then (RuneError, 1)
              else ((s0 mod 0x08) * 0x40000 + (s1 mod 0x40) * 0x1000 + (s2 mod 0x40) * 0x40
                      + s3 mod 0x40, 4))"

lemma DecodeRune_width: "s \<noteq> [] \<Longrightarrow> 0 < snd (DecodeRune s)"
  by (cases s) (simp_all add: DecodeRune_def Let_def)

text \<open>
  The validation loop of \<^verbatim>\<open>ExecCmd\<close>: \<open>True\<close> when it returns \<^verbatim>\<open>ErrNonASCII\<close>, \<open>False\<close>
  when it runs to the end of the string.
\<close>

function nonASCII :: "byte list \<Rightarrow> bool" where
  "nonASCII s =
     (if s = [] then False
      else (case DecodeRune s of (r, w) \<Rightarrow> if 0x80 \<le> r then True else nonASCII (drop w s)))"
  by pat_completeness auto
termination
proof (relation "measure length")
  show "wf (measure length)" by simp
next
  fix s :: "byte list" and x :: "nat \<times> nat" and r w :: nat
  assume "s \<noteq> []" and "(r, w) = DecodeRune s"
  then have "0 < w" using DecodeRune_width [of s] by (metis snd_conv)
  with \<open>s \<noteq> []\<close> show "(drop w s, s) \<in> measure length" by simp
qed

declare nonASCII.simps [simp del]

section \<open>client.go\<close>

definition responseBody :: "byte list" where
  "responseBody = [0x00, 0x01, 0x00, 0x00]"

text \<open>
  The fields \<^verbatim>\<open>read\<close> and \<^verbatim>\<open>write\<close> of the client (\<open>c_read\<close> and \<open>c_write\<close> here)
  hold one of two methods each. The address and the timeout take no part in what follows
  and are left out.
\<close>

datatype read_method = ReadMulti | ReadSingle
datatype write_method = WriteMulti | WritePkt

record Client =
  conn :: conn
  pwd :: "byte list"
  reader :: reader
  reqID :: int32
  c_read :: read_method
  c_write :: write_method

definition Password :: "byte list \<Rightarrow> Client \<Rightarrow> Client" where
  "Password s c = c\<lparr>pwd := s\<rparr>"

definition DisableMultiPacket :: "Client \<Rightarrow> Client" where
  "DisableMultiPacket c = c\<lparr>c_read := ReadSingle, c_write := WritePkt\<rparr>"

text \<open>
  The client as \<^verbatim>\<open>NewClient\<close> sets it up before any option is applied, on a working connection
  that has sent nothing and whose read side is \<open>r\<close>.
\<close>

definition connected :: "reader \<Rightarrow> Client" where
  "connected r = \<lparr>conn = Conn [] None, pwd = [], reader = r, reqID = 0,
     c_read = ReadMulti, c_write = WriteMulti\<rparr>"

definition setDeadline :: "Client \<Rightarrow> error option" where
  "setDeadline c = SetDeadline (conn c)"

definition readPkt :: "Client \<Rightarrow> ((error + pkt) \<times> Client) option" where
  "readPkt c =
     (case setDeadline c of
        Some err \<Rightarrow> Some (Inl err, c)
      | None \<Rightarrow>
          (case ReadFrom pkt0 (reader c) of
             None \<Rightarrow> None
           | Some (n, Some err, p, r') \<Rightarrow> Some (Inl err, c\<lparr>reader := r'\<rparr>)
           | Some (n, None, p, r') \<Rightarrow> Some (Inr p, c\<lparr>reader := r'\<rparr>)))"

definition writePkt :: "Client \<Rightarrow> int32 \<Rightarrow> byte list \<Rightarrow> error option \<times> Client" where
  "writePkt c pktType b =
     (let p = newPkt pktType (reqID c) b;
          c = c\<lparr>reqID := reqID c + 1\<rparr>
      in case setDeadline c of
           Some err \<Rightarrow> (Some err, c)
         | None \<Rightarrow> (case WriteTo p (conn c) of (n, err, w') \<Rightarrow> (err, c\<lparr>conn := w'\<rparr>)))"

definition writeMulti :: "Client \<Rightarrow> int32 \<Rightarrow> byte list \<Rightarrow> error option \<times> Client" where
  "writeMulti c pktType b =
     (case writePkt c pktType b of
        (Some err, c') \<Rightarrow> (Some err, c')
      | (None, c') \<Rightarrow> writePkt c' responseValue [])"

definition Client_auth :: "Client \<Rightarrow> (error option \<times> Client) option" where
  "Client_auth c =
     (if pwd c = [] then Some (None, c)
      else
        (case writePkt c auth (pwd c) of
           (Some err, c1) \<Rightarrow> Some (Some err, c1)
         | (None, c1) \<Rightarrow>
             (case readPkt c1 of
                None \<Rightarrow> None
              | Some (Inl err, c2) \<Rightarrow> Some (Some err, c2)
              | Some (Inr p, c2) \<Rightarrow>
                  if ID p \<noteq> 0 then Some (Some ErrAuthFailure, c2)
                  else if Type p = responseValue then
                    (case readPkt c2 of
                       None \<Rightarrow> None
                     | Some (Inl err, c3) \<Rightarrow> Some (Some err, c3)
                     | Some (Inr p, c3) \<Rightarrow>
                         if ID p \<noteq> 0 \<or> Type p \<noteq> authResponse then Some (Some ErrAuthFailure, c3)
                         else Some (None, c3))
                  else if Type p \<noteq> authResponse then Some (Some ErrAuthFailure, c2)
                  else Some (None, c2))))"

definition readSingle :: "Client \<Rightarrow> int32 \<Rightarrow> ((error + byte list) \<times> Client) option" where
  "readSingle c expectedID =
     (case readPkt c of
        None \<Rightarrow> None
      | Some (Inl err, c') \<Rightarrow> Some (Inl err, c')
      | Some (Inr p, c') \<Rightarrow>
          if ID p \<noteq> expectedID
            then Some (Inl (ErrMalformedResponse (''unexpected packet id '' @ fmt_int32 (ID p))), c')
          else Some (Inr (Body p), c'))"

text \<open>
  The loop of \<^verbatim>\<open>readMulti\<close>, with its two variables \<open>buf\<close> and \<open>cnt\<close>. A write to a
  \<^verbatim>\<open>bytes.Buffer\<close> returns no error. The inner \<^verbatim>\<open>switch cnt\<close> has no default: any other
  count goes round the loop again.
\<close>

partial_function (option) readMulti_loop ::
  "Client \<Rightarrow> int32 \<Rightarrow> byte list \<Rightarrow> int \<Rightarrow> ((error + byte list) \<times> Client) option" where
  "readMulti_loop c expectedID buf cnt =
     (case readPkt c of
        None \<Rightarrow> None
      | Some (Inl err, c') \<Rightarrow> Some (Inl err, c')
      | Some (Inr p, c') \<Rightarrow>
          if Type p \<noteq> responseValue then Some (Inl (ErrMalformedResponse ''unexpected type''), c')
          else if ID p = expectedID then readMulti_loop c' expectedID (buf @ body p) cnt
          else if ID p = expectedID + 1 then
            (let cnt = cnt + 1 in
             if cnt = 1 then
               (if length (body p) \<noteq> 0 then Some (Inl (ErrMalformedResponse ''non-empty body''), c')
                else readMulti_loop c' expectedID buf cnt)
             else if cnt = 2 then
               (if body p \<noteq> responseBody then Some (Inl (ErrUnexpectedBody (Body p)), c')
                else Some (Inr buf, c'))
             else readMulti_loop c' expectedID buf cnt)
          else Some (Inl (ErrMalformedResponse (''unexpected packet id '' @ fmt_int32 (ID p))), c'))"

declare readMulti_loop.simps [code]

definition readMulti :: "Client \<Rightarrow> int32 \<Rightarrow> ((error + byte list) \<times> Client) option" where
  "readMulti c expectedID = readMulti_loop c expectedID [] 0"

text \<open>The calls \<^verbatim>\<open>c.read(...)\<close> and \<^verbatim>\<open>c.write(...)\<close> through the two fields.\<close>

definition call_read :: "Client \<Rightarrow> int32 \<Rightarrow> ((error + byte list) \<times> Client) option" where
  "call_read c expectedID =
     (case c_read c of ReadMulti \<Rightarrow> readMulti c expectedID | ReadSingle \<Rightarrow> readSingle c expectedID)"

definition call_write :: "Client \<Rightarrow> int32 \<Rightarrow> byte list \<Rightarrow> error option \<times> Client" where
  "call_write c pktType b =
     (case c_write c of WriteMulti \<Rightarrow> writeMulti c pktType b | WritePkt \<Rightarrow> writePkt c pktType b)"

definition ExecCmd ::
  "('a \<Rightarrow> byte list) \<Rightarrow> Client \<Rightarrow> 'a Cmd \<Rightarrow> ((error + byte list) \<times> Client) option" where
  "ExecCmd fmtv c k =
     (let b = String fmtv k in
      if nonASCII b then Some (Inl ErrNonASCII, c)
      else
        let expectedID = reqID c in
        (case call_write c execCommand b of
           (Some err, c') \<Rightarrow> Some (Inl err, c')
         | (None, c') \<Rightarrow> call_read c' expectedID))"

definition Exec ::
  "('a \<Rightarrow> byte list) \<Rightarrow> Client \<Rightarrow> byte list \<Rightarrow> ((error + byte list) \<times> Client) option" where
  "Exec fmtv c s = ExecCmd fmtv c (NewCmd s)"

section \<open>Response sequences\<close>

text \<open>
  \<open>decodes r p r'\<close>: the next decode on \<open>r\<close> succeeds, gives \<open>p\<close> and leaves \<open>r'\<close>.
  \<open>serves r ps r'\<close>: the decoded response sequence of \<open>r\<close> starts with the packets
  \<open>ps\<close>, in this order, and \<open>r'\<close> is what is left after them.
\<close>

definition decodes :: "reader \<Rightarrow> pkt \<Rightarrow> reader \<Rightarrow> bool" where
  "decodes r p r' =
     (case ReadFrom pkt0 r of Some (n, None, q, r1) \<Rightarrow> q = p \<and> r1 = r' | _ \<Rightarrow> False)"

fun serves :: "reader \<Rightarrow> pkt list \<Rightarrow> reader \<Rightarrow> bool" where
  "serves r [] r' = (r' = r)"
| "serves r (p # ps) r' =
     (case ReadFrom pkt0 r of Some (n, None, q, r1) \<Rightarrow> q = p \<and> serves r1 ps r' | _ \<Rightarrow> False)"

section \<open>Reading from the transport\<close>

lemma Read_data:
  assumes "chunks r \<noteq> []"
  obtains xs r' where "Read r k = (xs, None, r')" "stream r = xs @ stream r'"
    "length xs \<le> k" "closed r' = closed r" "0 < k \<Longrightarrow> pending r' < pending r"
proof (cases r)
  case (Reader cs e)
  with assms obtain c cs' where cs: "cs = c # cs'" by (cases cs) auto
  show ?thesis
  proof (cases "length c \<le> k")
    case True
    with Reader cs show ?thesis
      by (intro that [of c "Reader cs' e"]) (simp_all add: stream_def pending_def)
  next
    case False
    with Reader cs show ?thesis
      by (intro that [of "take k c" "Reader (drop k c # cs') e"])
         (simp_all add: stream_def pending_def)
  qed
qed

lemma Read_drained:
  "chunks r = [] \<Longrightarrow> Read r k = ([], Some (rerr r), r)"
  by (cases r) simp

lemma stream_Nil: "chunks r = [] \<Longrightarrow> stream r = []"
  by (simp add: stream_def)

lemma append_eq_split:
  assumes "xs @ ys = bs @ rest" "length xs \<le> length bs"
  shows "xs = take (length xs) bs" "ys = drop (length xs) bs @ rest"
proof -
  from assms(1) have "take (length xs) (xs @ ys) = take (length xs) (bs @ rest)" by simp
  with assms(2) show "xs = take (length xs) bs" by simp
  from assms(1) have "drop (length xs) (xs @ ys) = drop (length xs) (bs @ rest)" by simp
  with assms(2) show "ys = drop (length xs) bs @ rest" by simp
qed

lemma ReadFull_enough:
  "stream r = bs @ rest \<Longrightarrow> length buf + length bs = m \<Longrightarrow>
   \<exists>r'. ReadFull r m buf = (buf @ bs, None, r') \<and> stream r' = rest \<and> closed r' = closed r"
proof (induction "pending r" arbitrary: r buf bs rule: less_induct)
  case less
  show ?case
  proof (cases "bs = []")
    case True
    with less.prems show ?thesis by (subst ReadFull.simps) auto
  next
    case False
    with less.prems have need: "length buf < m" "0 < m - length buf" by auto
    from False less.prems have "chunks r \<noteq> []" by (auto simp: stream_def)
    then obtain xs r1 where rd: "Read r (m - length buf) = (xs, None, r1)"
      and st: "stream r = xs @ stream r1" and len: "length xs \<le> m - length buf"
      and cl: "closed r1 = closed r" and pd: "pending r1 < pending r"
      using need by (auto elim: Read_data [of r "m - length buf"])
    from len less.prems(2) have "length xs \<le> length bs" by simp
    with st less.prems(1) have xs: "xs = take (length xs) bs"
      and s1: "stream r1 = drop (length xs) bs @ rest"
      using append_eq_split [of xs "stream r1" bs rest] by simp_all
    have "length (buf @ xs) + length (drop (length xs) bs) = m"
      using less.prems(2) \<open>length xs \<le> length bs\<close> by simp
    from less.hyps [OF pd s1 this] obtain r' where
      "ReadFull r1 m (buf @ xs) = ((buf @ xs) @ drop (length xs) bs, None, r')"
      "stream r' = rest" "closed r' = closed r1" by blast
    moreover have "xs @ drop (length xs) bs = bs"
      using xs by (metis append_take_drop_id)
    ultimately show ?thesis using rd need cl by (subst ReadFull.simps) simp
  qed
qed

lemma ReadFull_short:
  "length buf + length (stream r) < m \<Longrightarrow>
   ReadFull r m buf = (buf @ stream r,
      Some (if buf @ stream r \<noteq> [] \<and> rerr r = EOF then ErrUnexpectedEOF else rerr r),
      Reader [] (closed r))"
proof (induction "pending r" arbitrary: r buf rule: less_induct)
  case less
  from less.prems have need: "length buf < m" "0 < m - length buf" by auto
  show ?case
  proof (cases "chunks r = []")
    case True
    then have "r = Reader [] (closed r)" by (cases r) simp
    with True need less.prems show ?thesis
      by (subst ReadFull.simps) (simp add: Read_drained stream_Nil)
  next
    case False
    then obtain xs r1 where rd: "Read r (m - length buf) = (xs, None, r1)"
      and st: "stream r = xs @ stream r1"
      and cl: "closed r1 = closed r" and pd: "pending r1 < pending r"
      using need by (auto elim: Read_data [of r "m - length buf"])
    have *: "length (buf @ xs) + length (stream r1) < m"
      using less.prems st by simp
    have "rerr r1 = rerr r" using cl by (simp add: rerr_def)
    with less.hyps [OF pd *] rd need cl st show ?thesis
      by (subst ReadFull.simps) simp
  qed
qed

section \<open>The payload loop\<close>

lemma sint_of_nat32: "j < 2 ^ 31 \<Longrightarrow> sint (word_of_nat j :: int32) = int j"
  by (simp add: signed_of_nat signed_take_bit_int_eq_self)

lemma ReadFrom_loop_enough:
  assumes "int (length (body p)) = sint (Size p - 8)"
    and "stream r = bs @ rest"
    and "j + length bs = length (body p)"
  shows "\<exists>r'. ReadFrom_loop r p None n (word_of_nat j) =
           (case ReadFrom_trailer (p\<lparr>body := take j (body p) @ bs\<rparr>) (n + int (length (body p)))
            of (n', e, p') \<Rightarrow> Some (n', e, p', r'))
         \<and> stream r' = rest \<and> closed r' = closed r"
  using assms
proof (induction "pending r" arbitrary: r p j bs rule: less_induct)
  case less
  let ?L = "length (body p)"
  have "sint (Size p - 8) < 2 ^ 31" using sint_lt [of "Size p - 8"] by simp
  with less.prems(1) have "int ?L < 2 ^ 31" by simp
  then have L: "?L < 2 ^ 31" by simp
  with less.prems(3) have j: "j < 2 ^ 31" "j \<le> ?L" by auto
  then have sj: "sint (word_of_nat j :: int32) = int j" by (simp add: sint_of_nat32)
  show ?case
  proof (cases "bs = []")
    case True
    with less.prems(3) have "j = ?L" by simp
    with True less.prems(1,2) sj show ?thesis
      by (subst ReadFrom_loop.simps) (auto intro: exI [of _ r])
  next
    case False
    then have "0 < length bs" by simp
    with less.prems(3) have need: "j < ?L" "0 < ?L - j" by linarith+
    from False less.prems(2) have "chunks r \<noteq> []" by (auto simp: stream_def)
    then obtain xs r1 where rd: "Read r (?L - j) = (xs, None, r1)"
      and st: "stream r = xs @ stream r1" and len: "length xs \<le> ?L - j"
      and cl: "closed r1 = closed r" and pd: "pending r1 < pending r"
      using need by (auto elim: Read_data [of r "?L - j"])
    from len less.prems(3) have lxs: "length xs \<le> length bs" by simp
    with st less.prems(2) have xs: "xs = take (length xs) bs"
      and s1: "stream r1 = drop (length xs) bs @ rest"
      using append_eq_split [of xs "stream r1" bs rest] by simp_all
    define p1 where "p1 = p\<lparr>body := take j (body p) @ xs @ drop (j + length xs) (body p)\<rparr>"
    have b1: "length (body p1) = ?L" using len need by (simp add: p1_def)
    have a1: "int (length (body p1)) = sint (Size p1 - 8)"
      using less.prems(1) b1 by (simp add: p1_def)
    have a3: "(j + length xs) + length (drop (length xs) bs) = length (body p1)"
      using b1 less.prems(3) lxs by simp
    from less.hyps [OF pd a1 s1 a3] obtain r' where
      run: "ReadFrom_loop r1 p1 None n (word_of_nat (j + length xs)) =
           (case ReadFrom_trailer (p1\<lparr>body := take (j + length xs) (body p1) @ drop (length xs) bs\<rparr>)
                   (n + int (length (body p1)))
            of (n', e, p') \<Rightarrow> Some (n', e, p', r'))"
      and r': "stream r' = rest" "closed r' = closed r1" by blast
    have "take (j + length xs) (body p1) = take j (body p) @ xs"
      using need by (simp add: p1_def)
    moreover have "xs @ drop (length xs) bs = bs"
      using xs by (metis append_take_drop_id)
    ultimately have "take (j + length xs) (body p1) @ drop (length xs) bs = take j (body p) @ bs"
      by (metis append_assoc)
    moreover have "p1\<lparr>body := X\<rparr> = p\<lparr>body := X\<rparr>" for X
      by (simp add: p1_def)
    ultimately have eq: "p1\<lparr>body := take (j + length xs) (body p1) @ drop (length xs) bs\<rparr>
        = p\<lparr>body := take j (body p) @ bs\<rparr>"
      by (simp only:)
    have "ReadFrom_loop r p None n (word_of_nat j) =
          ReadFrom_loop r1 p1 None n (word_of_nat (j + length xs))"
      using need sj less.prems(1) rd
      by (subst ReadFrom_loop.simps) (simp add: p1_def Let_def)
    with run eq b1 r' cl show ?thesis by auto
  qed
qed

lemma ReadFrom_loop_drained:
  assumes "ReadFrom_loop r p err n i = Some res"
  shows "\<not> (chunks r = [] \<and> err = None \<and> sint i < sint (Size p - 8)
        \<and> 0 \<le> sint i \<and> sint i \<le> int (length (body p)))"
proof (rule ReadFrom_loop.raw_induct [where P = "\<lambda>r p err n i res.
     \<not> (chunks r = [] \<and> err = None \<and> sint i < sint (Size p - 8)
        \<and> 0 \<le> sint i \<and> sint i \<le> int (length (body p)))", OF _ assms])
  fix loop :: "reader \<Rightarrow> pkt \<Rightarrow> error option \<Rightarrow> int \<Rightarrow> int32
      \<Rightarrow> (int \<times> error option \<times> pkt \<times> reader) option"
  fix r p err n i res
  assume IH: "\<And>r p err n i res. loop r p err n i = Some res \<Longrightarrow>
     \<not> (chunks r = [] \<and> err = None \<and> sint i < sint (Size p - 8)
        \<and> 0 \<le> sint i \<and> sint i \<le> int (length (body p)))"
  assume step: "(if sint i < sint (Size p - 8)
      then if sint i < 0 \<or> int (length (body p)) < sint i
           then Some (n, Some (Panic ''slice bounds out of range''), p, r)
           else case Read r (length (body p) - nat (sint i)) of
                (bs, err2, r') \<Rightarrow>
                  let p' = p\<lparr>body := take (nat (sint i)) (body p) @
                           bs @ drop (nat (sint i) + length bs) (body p)\<rparr>
                  in if err \<noteq> None
                     then Some (n + int (length bs) + sint i, err2, p', r')
                     else loop r' p' err n (i + word_of_nat (length bs))
      else case ReadFrom_trailer p (n + sint i) of
           (n', e, p') \<Rightarrow> Some (n', e, p', r)) = Some res"
  show "\<not> (chunks r = [] \<and> err = None \<and> sint i < sint (Size p - 8)
        \<and> 0 \<le> sint i \<and> sint i \<le> int (length (body p)))"
  proof
    assume a: "chunks r = [] \<and> err = None \<and> sint i < sint (Size p - 8)
        \<and> 0 \<le> sint i \<and> sint i \<le> int (length (body p))"
    then have "Read r (length (body p) - nat (sint i)) = ([], Some (rerr r), r)"
      by (simp add: Read_drained)
    moreover have "p\<lparr>body := take (nat (sint i)) (body p) @ drop (nat (sint i)) (body p)\<rparr> = p"
      by simp
    ultimately have "loop r p err n i = Some res"
      using step a by (simp add: Let_def)
    from IH [OF this] a show False by blast
  qed
qed

lemma ReadFrom_loop_short:
  assumes "int (length (body p)) = sint (Size p - 8)"
    and "j + length (stream r) < length (body p)"
  shows "ReadFrom_loop r p None n (word_of_nat j) = None"
  using assms
proof (induction "pending r" arbitrary: r p j rule: less_induct)
  case less
  let ?L = "length (body p)"
  have "sint (Size p - 8) < 2 ^ 31" using sint_lt [of "Size p - 8"] by simp
  with less.prems(1) have "int ?L < 2 ^ 31" by simp
  then have L: "?L < 2 ^ 31" by simp
  with less.prems(2) have j: "j < 2 ^ 31" "j < ?L" "0 < ?L - j" by auto
  then have sj: "sint (word_of_nat j :: int32) = int j" by (simp add: sint_of_nat32)
  show ?case
  proof (cases "chunks r = []")
    case True
    show ?thesis
    proof (cases "ReadFrom_loop r p None n (word_of_nat j)")
      case None
      then show ?thesis .
    next
      case (Some res)
      from ReadFrom_loop_drained [OF this] True sj j less.prems(1)
      show ?thesis by simp
    qed
  next
    case False
    then obtain xs r1 where rd: "Read r (?L - j) = (xs, None, r1)"
      and st: "stream r = xs @ stream r1" and len: "length xs \<le> ?L - j"
      and pd: "pending r1 < pending r"
      using j by (auto elim: Read_data [of r "?L - j"])
    define p1 where "p1 = p\<lparr>body := take j (body p) @ xs @ drop (j + length xs) (body p)\<rparr>"
    have b1: "length (body p1) = ?L" using len j by (simp add: p1_def)
    have a1: "int (length (body p1)) = sint (Size p1 - 8)"
      using less.prems(1) b1 by (simp add: p1_def)
    have a2: "(j + length xs) + length (stream r1) < length (body p1)"
      using b1 less.prems(2) st by simp
    have "ReadFrom_loop r p None n (word_of_nat j) =
          ReadFrom_loop r1 p1 None n (word_of_nat (j + length xs))"
      using j sj less.prems(1) rd
      by (subst ReadFrom_loop.simps) (simp add: p1_def Let_def)
    with less.hyps [OF pd a1 a2] show ?thesis by simp
  qed
qed

section \<open>Decoding a packet\<close>

lemma Uint32_PutUint32: "Uint32 (PutUint32 v) = v"
proof (rule bit_word_eqI)
  fix n :: nat
  assume "n < LENGTH(32)"
  then consider "n < 8" | "8 \<le> n" "n < 16" | "16 \<le> n" "n < 24" | "24 \<le> n" "n < 32"
    by fastforce
  then show "bit (Uint32 (PutUint32 v)) n = bit v n"
    by cases (auto simp add: Uint32_def PutUint32_def bit_simps)
qed

lemma rerr_closed: "closed r' = closed r \<Longrightarrow> rerr r' = rerr r"
  by (simp add: rerr_def)

lemma rerr_not_Panic: "rerr r \<noteq> Panic s"
  by (simp add: rerr_def split: option.split)

lemma binary_Read_enough:
  assumes "4 \<le> length (stream r)"
  obtains r' where "binary_Read r v = (None, Uint32 (take 4 (stream r)), r')"
    "stream r' = drop 4 (stream r)" "closed r' = closed r"
proof -
  have "stream r = take 4 (stream r) @ drop 4 (stream r)" by simp
  moreover have "length ([] :: byte list) + length (take 4 (stream r)) = 4"
    using assms by simp
  ultimately obtain r' where "ReadFull r 4 [] = ([] @ take 4 (stream r), None, r')"
    "stream r' = drop 4 (stream r)" "closed r' = closed r"
    using ReadFull_enough by blast
  then show ?thesis by (intro that [of r']) (simp_all add: binary_Read_def)
qed

lemma binary_Read_short:
  "length (stream r) < 4 \<Longrightarrow>
   binary_Read r v = (Some (short_read r), v, Reader [] (closed r))"
  using ReadFull_short [of "[]" r 4] by (simp add: binary_Read_def short_read_def)

lemma short_read_not_Panic: "short_read r \<noteq> Panic s"
  by (simp add: short_read_def rerr_not_Panic)

lemma sint_sub8: "10 \<le> sint (v :: int32) \<Longrightarrow> sint (v - 8) = sint v - 8"
proof -
  assume a: "10 \<le> sint v"
  have "sint v < 2 ^ 31" using sint_lt [of v] by simp
  with a show ?thesis
    by (simp add: sint_word_ariths signed_take_bit_int_eq_self)
qed

lemma ReadFrom_short_size:
  "length (stream r) < 4 \<Longrightarrow>
   ReadFrom p r = Some (0, Some (short_read r), p, Reader [] (closed r))"
  by (simp add: ReadFrom_def binary_Read_short)

lemma ReadFrom_size_too_small:
  assumes "4 \<le> length (stream r)" "sint (Uint32 (take 4 (stream r))) < 10"
  shows "\<exists>r'. ReadFrom p r = Some (4, Some (ErrMalformedResponse ''size too small''),
            p\<lparr>Size := Uint32 (take 4 (stream r))\<rparr>, r')
          \<and> stream r' = drop 4 (stream r) \<and> closed r' = closed r"
proof -
  obtain r1 where "binary_Read r (Size p) = (None, Uint32 (take 4 (stream r)), r1)"
    "stream r1 = drop 4 (stream r)" "closed r1 = closed r"
    using assms(1) by (rule binary_Read_enough)
  with assms(2) show ?thesis by (simp add: ReadFrom_def)
qed

lemma ReadFrom_short_header:
  assumes "4 \<le> length (stream r)" "10 \<le> sint (Uint32 (take 4 (stream r)))"
    "length (stream r) < 12"
  shows "\<exists>n e p'. ReadFrom p r = Some (n, Some e, p', Reader [] (closed r))
          \<and> (e = ErrUnexpectedEOF \<or> e = rerr r)"
proof -
  obtain r1 where r1: "binary_Read r (Size p) = (None, Uint32 (take 4 (stream r)), r1)"
    "stream r1 = drop 4 (stream r)" "closed r1 = closed r"
    using assms(1) by (rule binary_Read_enough)
  show ?thesis
  proof (cases "length (stream r) < 8")
    case True
    then have "length (stream r1) < 4" using r1(2) by simp
    from binary_Read_short [OF this] r1 assms(2) show ?thesis
      by (simp add: ReadFrom_def short_read_def rerr_closed [OF r1(3)])
  next
    case False
    then have "4 \<le> length (stream r1)" using r1(2) by simp
    then obtain r2 where r2: "binary_Read r1 (ID p) = (None, Uint32 (take 4 (stream r1)), r2)"
      "stream r2 = drop 4 (stream r1)" "closed r2 = closed r1"
      by (rule binary_Read_enough)
    have cl: "closed r2 = closed r" using r1(3) r2(3) by simp
    have "length (stream r2) < 4" using r1(2) r2(2) assms(3) by simp
    from binary_Read_short [OF this] r1 r2 assms(2) show ?thesis
      by (simp add: ReadFrom_def short_read_def rerr_closed [OF cl])
  qed
qed

lemma ReadFrom_header:
  assumes "12 \<le> length (stream r)" "10 \<le> sint (Uint32 (take 4 (stream r)))"
  obtains r3 where "ReadFrom p r = ReadFrom_loop r3 (framed p (stream r)) None 12 0"
    "stream r3 = drop 12 (stream r)" "closed r3 = closed r"
proof -
  obtain r1 where r1: "binary_Read r (Size p) = (None, Uint32 (take 4 (stream r)), r1)"
    "stream r1 = drop 4 (stream r)" "closed r1 = closed r"
    using assms(1) by (auto intro: binary_Read_enough [of r "Size p"])
  have "4 \<le> length (stream r1)" using r1(2) assms(1) by simp
  then obtain r2 where r2: "binary_Read r1 (ID p) = (None, Uint32 (take 4 (stream r1)), r2)"
    "stream r2 = drop 4 (stream r1)" "closed r2 = closed r1"
    by (rule binary_Read_enough)
  have "4 \<le> length (stream r2)" using r1(2) r2(2) assms(1) by simp
  then obtain r3 where r3: "binary_Read r2 (Type p) = (None, Uint32 (take 4 (stream r2)), r3)"
    "stream r3 = drop 4 (stream r2)" "closed r3 = closed r2"
    by (rule binary_Read_enough)
  have "0 \<le> sint (Uint32 (take 4 (stream r)) - 8)"
    using assms(2) by (simp add: sint_sub8)
  then have "ReadFrom p r = ReadFrom_loop r3 (framed p (stream r)) None 12 0"
    using r1 r2 r3 assms(2) by (simp add: ReadFrom_def framed_def sint_sub8)
  moreover have "stream r3 = drop 12 (stream r)" using r1(2) r2(2) r3(2) by simp
  moreover have "closed r3 = closed r" using r1(3) r2(3) r3(3) by simp
  ultimately show ?thesis by (rule that)
qed

lemma framed_body:
  "10 \<le> sint (Uint32 (take 4 s)) \<Longrightarrow>
   int (length (body (framed p s))) = sint (Size (framed p s) - 8)"
  by (simp add: framed_def sint_sub8)

lemma ReadFrom_starved:
  assumes "12 \<le> length (stream r)" "10 \<le> sint (Uint32 (take 4 (stream r)))"
    "int (length (stream r)) < sint (Uint32 (take 4 (stream r))) + 4"
  shows "ReadFrom p r = None"
proof -
  obtain r3 where r3: "ReadFrom p r = ReadFrom_loop r3 (framed p (stream r)) None 12 0"
    "stream r3 = drop 12 (stream r)"
    using assms(1,2) by (rule ReadFrom_header)
  have "0 + length (stream r3) < length (body (framed p (stream r)))"
    using assms r3(2) by (simp add: framed_def)
  from ReadFrom_loop_short [OF framed_body [OF assms(2)] this, of 12] r3(1)
  show ?thesis by simp
qed

lemma ReadFrom_framed:
  assumes "10 \<le> sint (Uint32 (take 4 (stream r)))"
    "sint (Uint32 (take 4 (stream r))) + 4 \<le> int (length (stream r))"
  shows "\<exists>r'. ReadFrom p r =
           (case ReadFrom_trailer
              (framed p (stream r)
                 \<lparr>body := take (nat (sint (Uint32 (take 4 (stream r))) - 8)) (drop 12 (stream r))\<rparr>)
              (sint (Uint32 (take 4 (stream r))) + 4)
            of (n', e, p') \<Rightarrow> Some (n', e, p', r'))
         \<and> stream r' = drop (nat (sint (Uint32 (take 4 (stream r))) + 4)) (stream r)
         \<and> closed r' = closed r"
proof -
  let ?s = "stream r"
  let ?sz = "sint (Uint32 (take 4 ?s))"
  let ?L = "nat (?sz - 8)"
  have len: "12 \<le> length ?s" using assms by linarith
  then obtain r3 where r3: "ReadFrom p r = ReadFrom_loop r3 (framed p ?s) None 12 0"
    "stream r3 = drop 12 ?s" "closed r3 = closed r"
    using assms(1) by (rule ReadFrom_header)
  have bl: "length (body (framed p ?s)) = ?L" by (simp add: framed_def)
  have a2: "stream r3 = take ?L (drop 12 ?s) @ drop ?L (drop 12 ?s)"
    using r3(2) by (simp only: append_take_drop_id)
  have a3: "0 + length (take ?L (drop 12 ?s)) = length (body (framed p ?s))"
    using assms by (simp add: bl)
  from ReadFrom_loop_enough [OF framed_body [OF assms(1)] a2 a3, of 12]
  obtain r' where r': "ReadFrom_loop r3 (framed p ?s) None 12 0 =
      (case ReadFrom_trailer (framed p ?s\<lparr>body := take 0 (body (framed p ?s)) @ take ?L (drop 12 ?s)\<rparr>)
              (12 + int (length (body (framed p ?s))))
       of (n', e, p') \<Rightarrow> Some (n', e, p', r'))"
    "stream r' = drop ?L (drop 12 ?s)" "closed r' = closed r3"
    by auto
  have n: "12 + int (length (body (framed p ?s))) = ?sz + 4"
    using assms(1) by (simp add: bl)
  have "ReadFrom p r =
      (case ReadFrom_trailer (framed p ?s\<lparr>body := take ?L (drop 12 ?s)\<rparr>) (?sz + 4)
       of (n', e, p') \<Rightarrow> Some (n', e, p', r'))"
    using r3(1) r'(1) by (simp only: n take_0 append_Nil)
  moreover have "drop ?L (drop 12 ?s) = drop (nat (?sz + 4)) ?s"
    using assms(1) by (simp add: nat_add_distrib nat_diff_distrib add.commute)
  ultimately show ?thesis using r3(3) r'(2,3) by (intro exI [of _ r']) simp
qed

lemma ReadFrom_trailer_cases:
  "2 \<le> length (body q) \<Longrightarrow>
   ReadFrom_trailer q n =
     (if drop (length (body q) - 2) (body q) = [0x00, 0x00]
      then (n, None, q\<lparr>body := take (length (body q) - 2) (body q)\<rparr>)
      else (n, Some (ErrMalformedResponse ''invalid trailer''), q))"
  by (simp add: ReadFrom_trailer_def)

lemma ReadFrom_framed_cases:
  assumes "10 \<le> sint (Uint32 (take 4 (stream r)))"
    and "sint (Uint32 (take 4 (stream r))) + 4 \<le> int (length (stream r))"
  shows "\<exists>r'. ReadFrom p r =
      Some (sint (Uint32 (take 4 (stream r))) + 4,
        (if drop (nat (sint (Uint32 (take 4 (stream r))) - 10))
               (take (nat (sint (Uint32 (take 4 (stream r))) - 8)) (drop 12 (stream r))) = [0x00, 0x00]
         then None else Some (ErrMalformedResponse ''invalid trailer'')),
        (if drop (nat (sint (Uint32 (take 4 (stream r))) - 10))
               (take (nat (sint (Uint32 (take 4 (stream r))) - 8)) (drop 12 (stream r))) = [0x00, 0x00]
         then framed p (stream r)
                \<lparr>body := take (nat (sint (Uint32 (take 4 (stream r))) - 10)) (drop 12 (stream r))\<rparr>
         else framed p (stream r)
                \<lparr>body := take (nat (sint (Uint32 (take 4 (stream r))) - 8)) (drop 12 (stream r))\<rparr>),
        r')
    \<and> stream r' = drop (nat (sint (Uint32 (take 4 (stream r))) + 4)) (stream r)
    \<and> closed r' = closed r"
proof -
  let ?s = "stream r"
  let ?sz = "sint (Uint32 (take 4 ?s))"
  define L where "L = nat (?sz - 8)"
  define raw where "raw = take L (drop 12 ?s)"
  define q where "q = framed p ?s\<lparr>body := raw\<rparr>"
  have L2: "2 \<le> L" "L - 2 = nat (?sz - 10)" using assms(1) by (simp_all add: L_def)
  have "L \<le> length ?s - 12" using assms by (simp add: L_def)
  then have len: "length raw = L" by (simp add: raw_def)
  have bq: "body q = raw" by (simp add: q_def)
  have tk: "take (L - 2) raw = take (L - 2) (drop 12 ?s)"
    by (simp add: raw_def min_def)
  have upd: "q\<lparr>body := x\<rparr> = framed p ?s\<lparr>body := x\<rparr>" for x
    by (simp add: q_def)
  have T: "ReadFrom_trailer q n =
      (if drop (L - 2) raw = [0x00, 0x00]
       then (n, None, framed p ?s\<lparr>body := take (L - 2) (drop 12 ?s)\<rparr>)
       else (n, Some (ErrMalformedResponse ''invalid trailer''), q))" for n
    using L2(1) by (simp add: ReadFrom_trailer_def bq len tk upd)
  from ReadFrom_framed [OF assms, of p] obtain r' where
    run: "ReadFrom p r = (case ReadFrom_trailer q (?sz + 4) of (n', e, p') \<Rightarrow> Some (n', e, p', r'))"
    and r': "stream r' = drop (nat (?sz + 4)) ?s" "closed r' = closed r"
    unfolding q_def raw_def L_def by blast
  have "ReadFrom p r =
      Some (?sz + 4,
        (if drop (L - 2) raw = [0x00, 0x00] then None
         else Some (ErrMalformedResponse ''invalid trailer'')),
        (if drop (L - 2) raw = [0x00, 0x00]
         then framed p ?s\<lparr>body := take (L - 2) (drop 12 ?s)\<rparr> else q),
        r')"
    unfolding run T by simp
  then show ?thesis using r'
    unfolding L2(2) unfolding q_def raw_def L_def by blast
qed

lemma ReadFrom_result:
  assumes "ReadFrom p r = Some (n, e, p', r')"
  shows "e \<noteq> Some (Panic m)"
    and "e = None \<Longrightarrow> 10 \<le> sint (Size p') \<and> int (length (body p')) = sint (Size p') - 10
           \<and> n = sint (Size p') + 4"
    and "e = None \<Longrightarrow> body p' = take (nat (sint (Size p') - 10)) (drop 12 (stream r))"
proof -
  let ?s = "stream r"
  let ?sz = "sint (Uint32 (take 4 ?s))"
  have "e \<noteq> Some (Panic m) \<and> (e = None \<longrightarrow> 10 \<le> sint (Size p')
      \<and> int (length (body p')) = sint (Size p') - 10 \<and> n = sint (Size p') + 4
      \<and> body p' = take (nat (sint (Size p') - 10)) (drop 12 (stream r)))"
  proof -
    consider (a) "length ?s < 4" | (b) "4 \<le> length ?s" "?sz < 10"
      | (c) "4 \<le> length ?s" "10 \<le> ?sz" "length ?s < 12"
      | (d) "12 \<le> length ?s" "10 \<le> ?sz" "int (length ?s) < ?sz + 4"
      | (e) "10 \<le> ?sz" "?sz + 4 \<le> int (length ?s)"
      by linarith
    then show ?thesis
    proof cases
      case a
      from ReadFrom_short_size [OF this, of p] assms show ?thesis
        by (simp add: short_read_not_Panic)
    next
      case b
      from ReadFrom_size_too_small [OF this, of p] assms show ?thesis by auto
    next
      case c
      from ReadFrom_short_header [OF this, of p] assms show ?thesis
        by (auto simp: rerr_not_Panic)
    next
      case d
      from ReadFrom_starved [OF this, of p] assms show ?thesis by simp
    next
      case e
      have sz: "Size (framed p ?s\<lparr>body := x\<rparr>) = Uint32 (take 4 ?s)" for x
        by (simp add: framed_def)
      have "nat (?sz - 10) \<le> length ?s - 12" using e by linarith
      then have len: "min (length ?s - 12) (nat (?sz - 10)) = nat (?sz - 10)"
        by simp
      from ReadFrom_framed_cases [OF e, of p] assms show ?thesis
        by (auto simp add: sz len e(1) split: if_splits)
    qed
  qed
  then show "e \<noteq> Some (Panic m)"
    and "e = None \<Longrightarrow> 10 \<le> sint (Size p') \<and> int (length (body p')) = sint (Size p') - 10
           \<and> n = sint (Size p') + 4"
    and "e = None \<Longrightarrow> body p' = take (nat (sint (Size p') - 10)) (drop 12 (stream r))"
    by blast+
qed

lemma length_PutUint32: "length (PutUint32 v) = 4"
  by (simp add: PutUint32_def)

lemma newPkt_sel [simp]:
  "ID (newPkt t i b) = i" "Type (newPkt t i b) = t" "body (newPkt t i b) = b"
  by (simp_all add: newPkt_def)

lemma length_wire: "length (wire p) = length (body p) + 14"
  by (simp add: wire_def length_PutUint32)

lemma Size_newPkt: "length b + 10 < 2 ^ 31 \<Longrightarrow> sint (Size (newPkt t i b)) = int (length b) + 10"
  using sint_of_nat32 [of "length b + 10"] by (simp add: newPkt_def)

lemma ReadFrom_trailer_strip:
  "ReadFrom_trailer (q\<lparr>body := b @ [0x00, 0x00]\<rparr>) n = (n, None, q\<lparr>body := b\<rparr>)"
  by (simp add: ReadFrom_trailer_def)

lemma ReadFrom_wire:
  assumes "length b + 10 < 2 ^ 31" and "stream r = wire (newPkt t i b) @ rest"
  shows "\<exists>r'. ReadFrom p r = Some (int (length b) + 14, None, newPkt t i b, r')
           \<and> stream r' = rest \<and> closed r' = closed r"
proof -
  let ?s = "stream r"
  let ?v = "Size (newPkt t i b)"
  have s: "?s = PutUint32 ?v @ PutUint32 i @ PutUint32 t @ b @ [0x00, 0x00] @ rest"
    using assms(2) by (simp add: wire_def newPkt_def)
  have h1: "take 4 ?s = PutUint32 ?v"
    by (simp add: s length_PutUint32)
  have h2: "take 4 (drop 4 ?s) = PutUint32 i"
    by (simp add: s length_PutUint32)
  have h3: "take 4 (drop 8 ?s) = PutUint32 t"
    by (subst s) (simp add: length_PutUint32)
  have pl: "drop 12 ?s = b @ [0x00, 0x00] @ rest"
    by (subst s) (simp add: length_PutUint32)
  have sz: "sint (Uint32 (take 4 ?s)) = int (length b) + 10"
    using assms(1) by (simp add: h1 Uint32_PutUint32 Size_newPkt)
  have L: "nat (sint (Uint32 (take 4 ?s)) - 8) = length b + 2"
    by (simp add: sz)
  have N: "nat (sint (Uint32 (take 4 ?s)) + 4) = length b + 14"
    by (simp add: sz)
  have a1: "10 \<le> sint (Uint32 (take 4 ?s))" by (simp add: sz)
  have a2: "sint (Uint32 (take 4 ?s)) + 4 \<le> int (length ?s)"
    by (simp add: sz) (simp add: s length_PutUint32)
  let ?q = "framed p ?s\<lparr>body := take (nat (sint (Uint32 (take 4 ?s)) - 8)) (drop 12 ?s)\<rparr>"
  have bd: "take (nat (sint (Uint32 (take 4 ?s)) - 8)) (drop 12 ?s) = b @ [0x00, 0x00]"
    unfolding L pl by simp
  have q: "?q = (newPkt t i b)\<lparr>body := b @ [0x00, 0x00]\<rparr>"
    unfolding bd by (simp add: framed_def h1 h2 h3 Uint32_PutUint32 newPkt_def)
  have T: "ReadFrom_trailer ?q n = (n, None, newPkt t i b)" for n
    by (simp only: q ReadFrom_trailer_strip) (simp add: newPkt_def)
  from ReadFrom_framed [OF a1 a2, of p] obtain r' where
    run: "ReadFrom p r = (case ReadFrom_trailer ?q (sint (Uint32 (take 4 ?s)) + 4)
            of (n', e, p') \<Rightarrow> Some (n', e, p', r'))"
    and r': "stream r' = drop (nat (sint (Uint32 (take 4 ?s)) + 4)) ?s" "closed r' = closed r"
    by blast
  from run have "ReadFrom p r = Some (sint (Uint32 (take 4 ?s)) + 4, None, newPkt t i b, r')"
    by (simp only: T prod.case)
  then have "ReadFrom p r = Some (int (length b) + 14, None, newPkt t i b, r')"
    by (simp add: sz)
  moreover have "stream r' = rest"
    unfolding r'(1) N by (subst s) (simp add: length_PutUint32)
  ultimately show ?thesis using r'(2) by blast
qed

lemma WriteTo_newPkt:
  assumes "length b + 14 < 2 ^ 31" and "fault w = None"
  shows "WriteTo (newPkt t i b) w =
     (int (length b) + 14, None, Conn (sent w @ wire (newPkt t i b)) None)"
proof -
  have "sint (Size (newPkt t i b) + 4) = int (length b) + 14"
    using sint_of_nat32 [of "length b + 14"] assms(1) by (simp add: newPkt_def add.commute)
  then show ?thesis
    using assms(2)
    by (simp add: WriteTo_def Buffer_WriteTo_def conn_Write_def length_wire)
qed

section \<open>Reading packets in sequence\<close>

lemma decodes_iff: "decodes r p r' \<longleftrightarrow> (\<exists>n. ReadFrom pkt0 r = Some (n, None, p, r'))"
  by (auto simp: decodes_def split: option.splits prod.splits)

lemma serves_Cons: "serves r (p # ps) r' \<longleftrightarrow> (\<exists>r1. decodes r p r1 \<and> serves r1 ps r')"
  by (auto simp: decodes_def split: option.splits prod.splits)

declare serves.simps(2) [simp del]

lemma serves_append: "serves r (xs @ ys) r' \<longleftrightarrow> (\<exists>r1. serves r xs r1 \<and> serves r1 ys r')"
proof (induction xs arbitrary: r)
  case Nil
  show ?case by simp
next
  case (Cons x xs)
  show ?case unfolding append_Cons serves_Cons Cons.IH by blast
qed

lemma serves_single: "serves r [p] r' \<longleftrightarrow> decodes r p r'"
  by (simp add: serves_Cons)

lemma readPkt_decodes:
  "fault (conn c) = None \<Longrightarrow> decodes (reader c) p r' \<Longrightarrow>
   readPkt c = Some (Inr p, c\<lparr>reader := r'\<rparr>)"
  by (auto simp: readPkt_def setDeadline_def SetDeadline_def decodes_iff)

lemma readMulti_loop_data:
  assumes "fault (conn c) = None" and "serves (reader c) xs r1"
    and "\<forall>p\<in>set xs. Type p = responseValue \<and> ID p = N"
  shows "readMulti_loop c N buf cnt =
         readMulti_loop (c\<lparr>reader := r1\<rparr>) N (buf @ concat (map body xs)) cnt"
  using assms
proof (induction xs arbitrary: c buf)
  case Nil
  then show ?case by simp
next
  case (Cons x xs)
  from Cons.prems(2) obtain r0 where d: "decodes (reader c) x r0" and s: "serves r0 xs r1"
    by (auto simp: serves_Cons)
  from Cons.prems(3) have x: "Type x = responseValue" "ID x = N" by simp_all
  have "readMulti_loop c N buf cnt = readMulti_loop (c\<lparr>reader := r0\<rparr>) N (buf @ body x) cnt"
    by (subst readMulti_loop.simps) (simp add: readPkt_decodes [OF Cons.prems(1) d] x)
  also have "\<dots> = readMulti_loop (c\<lparr>reader := r0\<rparr>\<lparr>reader := r1\<rparr>) N
      ((buf @ body x) @ concat (map body xs)) cnt"
    using Cons.prems(1,3) s by (intro Cons.IH) simp_all
  finally show ?case by simp
qed

lemma readMulti_loop_echo:
  assumes "fault (conn c) = None" and "serves (reader c) ss r1"
    and "length ss \<le> 1"
    and "\<forall>p\<in>set ss. Type p = responseValue \<and> ID p = N + 1 \<and> body p = []"
  shows "readMulti_loop c N buf 0 = readMulti_loop (c\<lparr>reader := r1\<rparr>) N buf (int (length ss))"
proof (cases ss)
  case Nil
  with assms(2) show ?thesis by simp
next
  case (Cons s ss')
  with assms(3) have ss: "ss = [s]" by simp
  with assms(2) have d: "decodes (reader c) s r1" by (simp add: serves_single)
  from assms(4) ss have s: "Type s = responseValue" "ID s = N + 1" "body s = []" by simp_all
  show ?thesis
    by (subst readMulti_loop.simps) (simp add: readPkt_decodes [OF assms(1) d] s ss)
qed

text \<open>The packets \<open>readMulti\<close> has accepted when it goes round its loop once more.\<close>

lemma readMulti_accepts:
  assumes "fault (conn c) = None" and "serves (reader c) (xs @ ss @ ys) r1"
    and "\<forall>p\<in>set (xs @ ys). Type p = responseValue \<and> ID p = N"
    and "length ss \<le> 1"
    and "\<forall>p\<in>set ss. Type p = responseValue \<and> ID p = N + 1 \<and> body p = []"
  shows "readMulti c N =
         readMulti_loop (c\<lparr>reader := r1\<rparr>) N (concat (map body (xs @ ys))) (int (length ss))"
proof -
  from assms(2) obtain ra rb where a: "serves (reader c) xs ra" and b: "serves ra ss rb"
    and c: "serves rb ys r1"
    by (auto simp: serves_append)
  have "readMulti c N = readMulti_loop (c\<lparr>reader := ra\<rparr>) N (concat (map body xs)) 0"
    unfolding readMulti_def using readMulti_loop_data [OF assms(1) a, of N "[]" 0] assms(3)
    by simp
  also have "\<dots> = readMulti_loop (c\<lparr>reader := ra\<rparr>\<lparr>reader := rb\<rparr>) N (concat (map body xs))
      (int (length ss))"
    using assms(1,4,5) b by (intro readMulti_loop_echo) simp_all
  also have "\<dots> = readMulti_loop (c\<lparr>reader := ra\<rparr>\<lparr>reader := rb\<rparr>\<lparr>reader := r1\<rparr>) N
      (concat (map body xs) @ concat (map body ys)) (int (length ss))"
    using assms(1,3) c by (intro readMulti_loop_data) simp_all
  finally show ?thesis by simp
qed

section \<open>Writing a packet\<close>

lemma writePkt_ok:
  assumes "writePkt c t b = (None, c1)"
  shows "fault (conn c) = None" "fault (conn c1) = None" "reader c1 = reader c"
    "reqID c1 = reqID c + 1" "sent (conn c1) = sent (conn c) @ wire (newPkt t (reqID c) b)"
    "pwd c1 = pwd c" "c_read c1 = c_read c" "c_write c1 = c_write c"
  using assms
  by (auto simp: writePkt_def Let_def setDeadline_def SetDeadline_def WriteTo_def
      Buffer_WriteTo_def conn_Write_def split: option.splits if_splits)

lemmas run_defs = connected_def Password_def DisableMultiPacket_def writePkt_def setDeadline_def
  SetDeadline_def WriteTo_def Buffer_WriteTo_def conn_Write_def wire_def newPkt_def PutUint32_def
  bytes_def auth_def authResponse_def responseValue_def execCommand_def

section \<open>The ASCII check\<close>

lemma DecodeRune_ascii:
  "unat b < 0x80 \<Longrightarrow> DecodeRune (b # bs) = (unat b, 1)"
  by (simp add: DecodeRune_def first_width_def)

lemma mod_window:
  assumes "q * m \<le> (a::nat)" and "a < q * m + m"
  shows "a mod m = a - q * m"
proof -
  define r where "r = a - q * m"
  have a: "a = r + q * m" using assms(1) by (simp add: r_def)
  have "r < m" using assms by (simp add: r_def)
  then show ?thesis unfolding a by simp
qed

lemma mask2: "0xC2 \<le> (a::nat) \<Longrightarrow> a < 0xE0 \<Longrightarrow> 2 \<le> a mod 0x20"
  using mod_window [of 6 "0x20" a] by simp

lemma mask3: "0xE1 \<le> (a::nat) \<Longrightarrow> a < 0xF0 \<Longrightarrow> 1 \<le> a mod 0x10"
  using mod_window [of 14 "0x10" a] by simp

lemma mask4: "0xF1 \<le> (a::nat) \<Longrightarrow> a < 0xF5 \<Longrightarrow> 1 \<le> a mod 0x08"
  using mod_window [of 30 "0x08" a] by simp

lemma maskx_A0: "0xA0 \<le> (a::nat) \<Longrightarrow> a \<le> 0xBF \<Longrightarrow> 0x20 \<le> a mod 0x40"
  using mod_window [of 2 "0x40" a] by simp

lemma maskx_90: "0x90 \<le> (a::nat) \<Longrightarrow> a \<le> 0xBF \<Longrightarrow> 0x10 \<le> a mod 0x40"
  using mod_window [of 2 "0x40" a] by simp

lemma two_byte: "0xC2 \<le> (a::nat) \<Longrightarrow> a < 0xE0 \<Longrightarrow> 0x80 \<le> (a mod 0x20) * 0x40 + x"
  using mask2 [of a] by simp

lemma three_byte:
  assumes "0xE0 \<le> (a::nat)" "a < 0xF0" "\<not> b < accept_lo a" "\<not> accept_hi a < b"
  shows "0x80 \<le> (a mod 0x10) * 0x1000 + (b mod 0x40) * 0x40 + x"
proof (cases "a = 0xE0")
  case True
  with assms have "0xA0 \<le> b" "b \<le> 0xBF" by (simp_all add: accept_lo_def accept_hi_def)
  from maskx_A0 [OF this] show ?thesis by simp
next
  case False
  with assms have "0xE1 \<le> a" by simp
  from mask3 [OF this assms(2)] show ?thesis by simp
qed

lemma four_byte:
  assumes "0xF0 \<le> (a::nat)" "a < 0xF5" "\<not> b < accept_lo a" "\<not> accept_hi a < b"
  shows "0x80 \<le> (a mod 0x08) * 0x40000 + (b mod 0x40) * 0x1000 + x"
proof (cases "a = 0xF0")
  case True
  with assms have "0x90 \<le> b" "b \<le> 0xBF" by (simp_all add: accept_lo_def accept_hi_def)
  from maskx_90 [OF this] show ?thesis by simp
next
  case False
  with assms have "0xF1 \<le> a" by simp
  from mask4 [OF this assms(2)] show ?thesis by simp
qed

lemma DecodeRune_high:
  assumes "0x80 \<le> unat b"
  shows "0x80 \<le> fst (DecodeRune (b # bs))"
proof -
  let ?a = "unat b"
  consider (bad) "?a < 0xC2 \<or> 0xF5 \<le> ?a" | (w2) "0xC2 \<le> ?a" "?a < 0xE0"
    | (w3) "0xE0 \<le> ?a" "?a < 0xF0" | (w4) "0xF0 \<le> ?a" "?a < 0xF5"
    by linarith
  then show ?thesis
  proof cases
    case bad
    with assms have "first_width ?a = 0" by (auto simp: first_width_def)
    then show ?thesis by (simp add: DecodeRune_def RuneError_def)
  next
    case w2
    then have "first_width ?a = 2" by (simp add: first_width_def)
    then show ?thesis
      using two_byte [OF w2] by (simp add: DecodeRune_def RuneError_def Let_def)
  next
    case w3
    then have "first_width ?a = 3" by (simp add: first_width_def)
    then show ?thesis
      using three_byte [OF w3]
      by (simp add: DecodeRune_def RuneError_def Let_def add.assoc)
  next
    case w4
    then have "first_width ?a = 4" by (simp add: first_width_def)
    then show ?thesis
      using four_byte [OF w4]
      by (simp add: DecodeRune_def RuneError_def Let_def add.assoc)
  qed
qed

lemma nonASCII_iff: "nonASCII s \<longleftrightarrow> (\<exists>b\<in>set s. 0x80 \<le> b)"
proof (induction s)
  case Nil
  show ?case by (simp add: nonASCII.simps)
next
  case (Cons b bs)
  show ?case
  proof (cases "unat b < 0x80")
    case True
    then have "\<not> 0x80 \<le> b" by (simp add: word_le_nat_alt)
    with True Cons.IH show ?thesis
      by (subst nonASCII.simps) (simp add: DecodeRune_ascii)
  next
    case False
    then have hi: "0x80 \<le> unat b" by simp
    then have "0x80 \<le> b" by (simp add: word_le_nat_alt)
    moreover obtain r w where rw: "DecodeRune (b # bs) = (r, w)"
      by (cases "DecodeRune (b # bs)") auto
    moreover have "0x80 \<le> r" using DecodeRune_high [OF hi, of bs] rw by simp
    ultimately show ?thesis
      by (subst nonASCII.simps) simp
  qed
qed

section \<open>Rendering a command\<close>

lemma doPrintln_rest:
  "doPrintln fmtv buf (Suc n) as =
     buf @ concat (map (\<lambda>a. bytes '' '' @ printArg fmtv a) as) @ bytes [CHR 0x0A]"
  by (induction as arbitrary: buf n) simp_all

lemma space_joined_Cons:
  "space_joined (x # xs) = x @ concat (map (\<lambda>a. bytes '' '' @ a) xs)"
  by (induction xs arbitrary: x) simp_all

lemma TrimSuffix_append: "TrimSuffix (x @ sfx) sfx = x"
  by (simp add: TrimSuffix_def HasSuffix_def)

lemma String_space_joined:
  "String fmtv c = space_joined (cmd c # map (printArg fmtv) (args c))"
proof -
  have "Sprintln fmtv (Str (cmd c) # args c) =
      space_joined (cmd c # map (printArg fmtv) (args c)) @ bytes [CHR 0x0A]"
    using doPrintln_rest [of fmtv "cmd c" 0 "args c"]
    by (simp add: Sprintln_def printArg_def space_joined_Cons comp_def)
  then show ?thesis by (simp add: String_def TrimSuffix_append)
qed

lemma String_NewCmd: "String fmtv (NewCmd s) = s"
  by (simp add: String_space_joined NewCmd_def)

lemma space_joined_Nil: "space_joined ops = [] \<Longrightarrow> ops \<noteq> [] \<Longrightarrow> last ops = []"
  by (induction ops rule: space_joined.induct) (simp_all add: bytes_def)

lemma last_space_joined:
  "ops \<noteq> [] \<Longrightarrow> last ops \<noteq> [] \<Longrightarrow> last (space_joined ops) = last (last ops)"
proof (induction ops rule: space_joined.induct)
  case 1
  then show ?case by simp
next
  case (2 x)
  then show ?case by simp
next
  case (3 x y zs)
  then have "last (y # zs) \<noteq> []" by simp
  with space_joined_Nil [of "y # zs"] have "space_joined (y # zs) \<noteq> []" by blast
  with 3 show ?case by (simp add: bytes_def)
qed

section \<open>The codec\<close>

text \<open>
  C2. The claim: for every input stream the decode terminates; its payload loop stops when the
  underlying read reports a terminal condition, and an end of stream met while payload bytes
  are still expected is returned to the caller as that transport error. The loop tests
  \<open>err\<close>, which is \<open>nil\<close> there, and not \<open>err2\<close>: on a stream that ends right after a
  header announcing two payload bytes, every \<open>Read\<close> reports the end of stream, the loop
  goes round with nothing changed, and \<open>ReadFrom\<close> never returns.
\<close>

theorem ReadFrom_spins_at_EOF:
  "ReadFrom pkt0 (Reader [PutUint32 10 @ PutUint32 0 @ PutUint32 responseValue] None) = None"
  by (rule ReadFrom_starved) (simp_all add: stream_def PutUint32_def Uint32_def)

text \<open>
  C3, as stated: for every type, id and body of any length, encoding with \<open>WriteTo\<close> and
  decoding the bytes with \<open>ReadFrom\<close> succeeds and gives the packet back. It fails for a
  body of \<open>2\<^sup>3\<^sup>1 - 14\<close> bytes: the size field still fits an \<^verbatim>\<open>int32\<close>, the capacity
  \<open>Size + 4\<close> does not, and \<open>WriteTo\<close> panics before it writes a byte.
\<close>

theorem WriteTo_panics_on_huge_body:
  "WriteTo (newPkt responseValue 0 (replicate 2147483634 0x00)) (Conn [] None) =
     (0, Some (Panic ''makeslice: cap out of range''), Conn [] None)"
  by (simp add: WriteTo_def newPkt_def)

text \<open>
  C3, amended: for every type, every id and every body of at most \<open>2\<^sup>3\<^sup>1 - 15\<close> bytes
  (embedded zero bytes allowed), \<open>WriteTo\<close> on a working connection returns no error, and
  \<open>ReadFrom\<close> on a reader that delivers the bytes \<open>WriteTo\<close> sent, cut into pieces in any
  way and followed by anything, returns a packet with the same type, id and body and leaves
  what followed.
\<close>

theorem WriteTo_ReadFrom_round_trip:
  assumes "length b + 14 < 2 ^ 31" and "fault w = None"
    and "stream r = drop (length (sent w)) (sent (snd (snd (WriteTo (newPkt t i b) w)))) @ rest"
  shows "fst (snd (WriteTo (newPkt t i b) w)) = None \<and>
    (\<exists>n p' r'. ReadFrom p r = Some (n, None, p', r') \<and> Type p' = t \<and> ID p' = i \<and> body p' = b
        \<and> stream r' = rest)"
proof -
  have w: "WriteTo (newPkt t i b) w =
      (int (length b) + 14, None, Conn (sent w @ wire (newPkt t i b)) None)"
    using assms(1,2) by (rule WriteTo_newPkt)
  then have "stream r = wire (newPkt t i b) @ rest" using assms(3) by simp
  moreover have "length b + 10 < 2 ^ 31" using assms(1) by simp
  ultimately obtain r' where "ReadFrom p r = Some (int (length b) + 14, None, newPkt t i b, r')"
    "stream r' = rest"
    using ReadFrom_wire by blast
  with w show ?thesis by auto
qed

theorem WriteTo_ReadFrom_round_trip_witness:
  "length [0x61, 0x00, 0x62 :: byte] + 14 < 2 ^ 31 \<and> fault (Conn [] None) = None
   \<and> stream (Reader [[13, 0, 0], [0, 7, 0, 0, 0, 0, 0, 0, 0, 0x61, 0], [], [0x62, 0, 0, 9]] None) =
       drop (length (sent (Conn [] None)))
         (sent (snd (snd (WriteTo (newPkt responseValue 7 [0x61, 0x00, 0x62]) (Conn [] None))))) @ [9]
   \<and> (\<exists>n p' r'. ReadFrom pkt0
          (Reader [[13, 0, 0], [0, 7, 0, 0, 0, 0, 0, 0, 0, 0x61, 0], [], [0x62, 0, 0, 9]] None) =
            Some (n, None, p', r')
        \<and> Type p' = responseValue \<and> ID p' = 7 \<and> body p' = [0x61, 0x00, 0x62] \<and> stream r' = [9])"
proof -
  have h1: "length [0x61, 0x00, 0x62 :: byte] + 14 < 2 ^ 31" by simp
  have h2: "fault (Conn [] None) = None" by simp
  have h3: "stream (Reader [[13, 0, 0], [0, 7, 0, 0, 0, 0, 0, 0, 0, 0x61, 0], [], [0x62, 0, 0, 9]] None) =
       drop (length (sent (Conn [] None)))
         (sent (snd (snd (WriteTo (newPkt responseValue 7 [0x61, 0x00, 0x62]) (Conn [] None))))) @ [9]"
    by (simp add: stream_def WriteTo_def Buffer_WriteTo_def conn_Write_def wire_def newPkt_def
        PutUint32_def responseValue_def)
  from WriteTo_ReadFrom_round_trip [OF h1 h2 h3, of pkt0] h1 h2 h3 show ?thesis by blast
qed

text \<open>
  C5. The decode never panics; it fails with the malformed-response error "size too small"
  whenever the size field is below 10, and with "invalid trailer" whenever the final two
  bytes of the raw payload of \<open>Size - 8\<close> bytes are not both zero; on success the body is
  that payload without its last two bytes, of length \<open>Size - 10\<close>.
\<close>

theorem ReadFrom_never_panics:
  "ReadFrom p r \<noteq> Some (n, Some (Panic m), p', r')
   \<and> (4 \<le> length (stream r) \<and> sint (Uint32 (take 4 (stream r))) < 10 \<longrightarrow>
        (\<exists>q r1. ReadFrom p r = Some (4, Some (ErrMalformedResponse ''size too small''), q, r1)))
   \<and> (10 \<le> sint (Uint32 (take 4 (stream r)))
        \<and> sint (Uint32 (take 4 (stream r))) + 4 \<le> int (length (stream r))
        \<and> drop (nat (sint (Uint32 (take 4 (stream r))) - 10))
             (take (nat (sint (Uint32 (take 4 (stream r))) - 8)) (drop 12 (stream r))) \<noteq> [0x00, 0x00] \<longrightarrow>
        (\<exists>q r1. ReadFrom p r = Some (sint (Uint32 (take 4 (stream r))) + 4,
                   Some (ErrMalformedResponse ''invalid trailer''), q, r1)))
   \<and> (ReadFrom p r = Some (n, None, p', r') \<longrightarrow>
        10 \<le> sint (Size p') \<and> int (length (body p')) = sint (Size p') - 10
        \<and> body p' = take (nat (sint (Size p') - 10)) (drop 12 (stream r)))"
proof (intro conjI impI)
  show "ReadFrom p r \<noteq> Some (n, Some (Panic m), p', r')"
    using ReadFrom_result(1) [of p r n "Some (Panic m)" p' r' m] by blast
next
  assume "4 \<le> length (stream r) \<and> sint (Uint32 (take 4 (stream r))) < 10"
  then show "\<exists>q r1. ReadFrom p r = Some (4, Some (ErrMalformedResponse ''size too small''), q, r1)"
    using ReadFrom_size_too_small [of r p] by blast
next
  let ?sz = "sint (Uint32 (take 4 (stream r)))"
  assume a: "10 \<le> ?sz \<and> ?sz + 4 \<le> int (length (stream r))
    \<and> drop (nat (?sz - 10)) (take (nat (?sz - 8)) (drop 12 (stream r))) \<noteq> [0x00, 0x00]"
  then have "10 \<le> ?sz" "?sz + 4 \<le> int (length (stream r))" by simp_all
  from ReadFrom_framed_cases [OF this, of p] a
  show "\<exists>q r1. ReadFrom p r = Some (?sz + 4, Some (ErrMalformedResponse ''invalid trailer''), q, r1)"
    by auto
next
  assume "ReadFrom p r = Some (n, None, p', r')"
  from ReadFrom_result(2,3) [OF this]
  show "10 \<le> sint (Size p')" "int (length (body p')) = sint (Size p') - 10"
    "body p' = take (nat (sint (Size p') - 10)) (drop 12 (stream r))"
    by simp_all
qed

theorem ReadFrom_never_panics_witness:
  "(\<exists>q r1. ReadFrom pkt0 (Reader [[9, 0], [0, 0, 5]] None) =
        Some (4, Some (ErrMalformedResponse ''size too small''), q, r1))
   \<and> (\<exists>q r1. ReadFrom pkt0 (Reader [[10, 0, 0, 0, 0, 0, 0, 0, 0, 0, 0, 0, 1, 0]] None) =
        Some (14, Some (ErrMalformedResponse ''invalid trailer''), q, r1))
   \<and> ReadFrom pkt0 (Reader [[12, 0, 0, 0, 7, 0, 0, 0], [0, 0, 0, 0, 104, 105, 0, 0]] None) =
        Some (16, None, \<lparr>Size = 12, ID = 7, Type = 0, body = [104, 105]\<rparr>, Reader [] None)
   \<and> int (length [104, 105 :: byte]) = sint (12 :: int32) - 10"
proof -
  let ?r1 = "Reader [[9, 0], [0, 0, 5]] None"
  let ?r2 = "Reader [[10, 0, 0, 0, 0, 0, 0, 0, 0, 0, 0, 0, 1, 0]] None"
  let ?r3 = "Reader [[12, 0, 0, 0, 7, 0, 0, 0], [0, 0, 0, 0, 104, 105, 0, 0]] None"
  let ?p3 = "\<lparr>Size = 12, ID = 7, Type = 0, body = [104, 105]\<rparr>"
  have h1: "4 \<le> length (stream ?r1) \<and> sint (Uint32 (take 4 (stream ?r1))) < 10"
    by (simp add: stream_def Uint32_def)
  have h2: "10 \<le> sint (Uint32 (take 4 (stream ?r2)))
        \<and> sint (Uint32 (take 4 (stream ?r2))) + 4 \<le> int (length (stream ?r2))
        \<and> drop (nat (sint (Uint32 (take 4 (stream ?r2))) - 10))
             (take (nat (sint (Uint32 (take 4 (stream ?r2))) - 8)) (drop 12 (stream ?r2)))
            \<noteq> [0x00, 0x00]"
    by (simp add: stream_def Uint32_def)
  have h3: "ReadFrom pkt0 ?r3 = Some (16, None, ?p3, Reader [] None)"
    by (simp add: ReadFrom_def binary_Read_def ReadFull.simps Uint32_def pkt0_def
        ReadFrom_loop.simps ReadFrom_trailer_def)
  have sz: "sint (Uint32 (take 4 (stream ?r2))) + 4 = 14"
    by (simp add: stream_def Uint32_def)
  from ReadFrom_never_panics [where p = pkt0 and r = ?r1] h1
  have "\<exists>q r1. ReadFrom pkt0 ?r1 = Some (4, Some (ErrMalformedResponse ''size too small''), q, r1)"
    by blast
  moreover from ReadFrom_never_panics [where p = pkt0 and r = ?r2] h2
  have "\<exists>q r1. ReadFrom pkt0 ?r2 = Some (sint (Uint32 (take 4 (stream ?r2))) + 4,
      Some (ErrMalformedResponse ''invalid trailer''), q, r1)"
    by blast
  moreover from ReadFrom_never_panics [where p = pkt0 and r = ?r3 and n = 16 and p' = ?p3
      and r' = "Reader [] None"] h3
  have "int (length (body ?p3)) = sint (Size ?p3) - 10"
    by blast
  ultimately show ?thesis using h3 unfolding sz by simp
qed

section \<open>The response reassembly\<close>

text \<open>
  C1. In multi-packet mode, for a request sent with id \<open>N\<close>: when the decoded response
  sequence consists of response-value packets with id \<open>N\<close>, in any number, and two
  response-value packets with id \<open>N + 1\<close>, the first with an empty body and the second,
  which ends the sequence, with the body \<open>00 01 00 00\<close>, \<open>readMulti\<close> returns the bodies of
  the id \<open>N\<close> packets, concatenated in the order of arrival.
\<close>

theorem readMulti_reassembles:
  assumes "fault (conn c) = None"
    and "serves (reader c) (xs @ [s1] @ ys @ [s2]) r'"
    and "\<forall>p\<in>set (xs @ ys). Type p = responseValue \<and> ID p = N"
    and "Type s1 = responseValue \<and> ID s1 = N + 1 \<and> body s1 = []"
    and "Type s2 = responseValue \<and> ID s2 = N + 1 \<and> body s2 = responseBody"
  shows "readMulti c N = Some (Inr (concat (map body (xs @ ys))), c\<lparr>reader := r'\<rparr>)"
proof -
  from assms(2) obtain r1 where a: "serves (reader c) (xs @ [s1] @ ys) r1"
    and d: "decodes r1 s2 r'"
    using serves_append [of "reader c" "xs @ [s1] @ ys" "[s2]" r'] by (auto simp: serves_single)
  have "readMulti c N =
      readMulti_loop (c\<lparr>reader := r1\<rparr>) N (concat (map body (xs @ ys))) (int (length [s1]))"
    using assms(1) a assms(3,4) by (intro readMulti_accepts) simp_all
  also have "\<dots> = Some (Inr (concat (map body (xs @ ys))), c\<lparr>reader := r1\<rparr>\<lparr>reader := r'\<rparr>)"
    using assms(1,5) d
    by (subst readMulti_loop.simps) (simp add: readPkt_decodes [of "c\<lparr>reader := r1\<rparr>" s2 r'])
  finally show ?thesis by simp
qed


text \<open>The sequence of the spec: "test " and "me", then the two echoes, with \<open>N = 0\<close>.\<close>

theorem readMulti_reassembles_witness:
  "readMulti
     \<lparr>conn = Conn [] None, pwd = [],
      reader = Reader [wire (newPkt responseValue 0 (bytes ''test '')),
                       wire (newPkt responseValue 0 (bytes ''me'')) @ wire (newPkt responseValue 1 []),
                       wire (newPkt responseValue 1 responseBody)] None,
      reqID = 2, c_read = ReadMulti, c_write = WriteMulti\<rparr> 0 =
   Some (Inr (bytes ''test me''),
     \<lparr>conn = Conn [] None, pwd = [], reader = Reader [] None,
      reqID = 2, c_read = ReadMulti, c_write = WriteMulti\<rparr>)"
proof -
  let ?r = "Reader [wire (newPkt responseValue 0 (bytes ''test '')),
                    wire (newPkt responseValue 0 (bytes ''me'')) @ wire (newPkt responseValue 1 []),
                    wire (newPkt responseValue 1 responseBody)] None"
  let ?c = "\<lparr>conn = Conn [] None, pwd = [], reader = ?r,
      reqID = 2, c_read = ReadMulti, c_write = WriteMulti\<rparr>"
  let ?xs = "[newPkt responseValue 0 (bytes ''test ''), newPkt responseValue 0 (bytes ''me'')]"
  let ?s1 = "newPkt responseValue 1 []"
  let ?s2 = "newPkt responseValue 1 responseBody"
  have h1: "fault (conn ?c) = None" by simp
  have h2: "serves (reader ?c) (?xs @ [?s1] @ [] @ [?s2]) (Reader [] None)"
    by code_simp
  have h3: "\<forall>p\<in>set (?xs @ []). Type p = responseValue \<and> ID p = 0" by simp
  have h4: "Type ?s1 = responseValue \<and> ID ?s1 = 0 + 1 \<and> body ?s1 = []" by simp
  have h5: "Type ?s2 = responseValue \<and> ID ?s2 = 0 + 1 \<and> body ?s2 = responseBody" by simp
  from readMulti_reassembles [OF h1 h2 h3 h4 h5] show ?thesis
    by (simp add: bytes_def)
qed

section \<open>The handshake\<close>

text \<open>
  C4. With a non-empty password, once the auth packet is written: the handshake succeeds when
  the decoded response sequence is a response-value packet with id 0 followed by an
  auth-response packet with id 0, and when it is an auth-response packet with id 0 alone. It
  fails with the authentication-failure error when the first packet's id is not 0; when, after
  a response-value first packet, the second packet has another id than 0 or another type than
  auth-response; and when the first packet is neither a response-value nor an auth-response
  packet.
\<close>

theorem auth_handshake:
  assumes "pwd c \<noteq> []" and "writePkt c auth (pwd c) = (None, c1)"
  shows "(decodes (reader c) p1 r1 \<and> ID p1 = 0 \<and> Type p1 = responseValue
            \<and> decodes r1 p2 r2 \<and> ID p2 = 0 \<and> Type p2 = authResponse \<longrightarrow>
          Client_auth c = Some (None, c1\<lparr>reader := r2\<rparr>))
       \<and> (decodes (reader c) p1 r1 \<and> ID p1 = 0 \<and> Type p1 = authResponse \<longrightarrow>
          Client_auth c = Some (None, c1\<lparr>reader := r1\<rparr>))
       \<and> (decodes (reader c) p1 r1 \<and> ID p1 \<noteq> 0 \<longrightarrow>
          Client_auth c = Some (Some ErrAuthFailure, c1\<lparr>reader := r1\<rparr>))
       \<and> (decodes (reader c) p1 r1 \<and> ID p1 = 0 \<and> Type p1 = responseValue
            \<and> decodes r1 p2 r2 \<and> (ID p2 \<noteq> 0 \<or> Type p2 \<noteq> authResponse) \<longrightarrow>
          Client_auth c = Some (Some ErrAuthFailure, c1\<lparr>reader := r2\<rparr>))
       \<and> (decodes (reader c) p1 r1 \<and> ID p1 = 0 \<and> Type p1 \<noteq> responseValue
            \<and> Type p1 \<noteq> authResponse \<longrightarrow>
          Client_auth c = Some (Some ErrAuthFailure, c1\<lparr>reader := r1\<rparr>))"
proof -
  note ok = writePkt_ok [OF assms(2)]
  have first: "readPkt c1 = Some (Inr p1, c1\<lparr>reader := r1\<rparr>)" if "decodes (reader c) p1 r1"
    using that ok(2,3) by (simp add: readPkt_decodes)
  have second: "readPkt (c1\<lparr>reader := r1\<rparr>) = Some (Inr p2, c1\<lparr>reader := r2\<rparr>)"
    if "decodes r1 p2 r2"
    using that ok(2) readPkt_decodes [of "c1\<lparr>reader := r1\<rparr>" p2 r2] by simp
  have rv: "responseValue \<noteq> authResponse"
    by (simp add: responseValue_def authResponse_def)
  show ?thesis
    using assms rv by (auto simp: Client_auth_def first second)
qed

theorem auth_handshake_witness:
  "Client_auth (Password (bytes ''pw'')
       (connected (Reader [wire (newPkt responseValue 0 []), wire (newPkt authResponse 0 [])] None))) =
     Some (None, (Password (bytes ''pw'') (connected (Reader [] None)))
                   \<lparr>conn := Conn (wire (newPkt auth 0 (bytes ''pw''))) None, reqID := 1\<rparr>)
   \<and> Client_auth (Password (bytes ''pw'')
       (connected (Reader [wire (newPkt authResponse 0 [])] None))) =
     Some (None, (Password (bytes ''pw'') (connected (Reader [] None)))
                   \<lparr>conn := Conn (wire (newPkt auth 0 (bytes ''pw''))) None, reqID := 1\<rparr>)
   \<and> Client_auth (Password (bytes ''pw'')
       (connected (Reader [wire (newPkt authResponse (- 1) [])] None))) =
     Some (Some ErrAuthFailure, (Password (bytes ''pw'') (connected (Reader [] None)))
                   \<lparr>conn := Conn (wire (newPkt auth 0 (bytes ''pw''))) None, reqID := 1\<rparr>)"
proof -
  let ?ra = "Reader [wire (newPkt responseValue 0 []), wire (newPkt authResponse 0 [])] None"
  let ?rb = "Reader [wire (newPkt authResponse 0 [])] None"
  let ?rc = "Reader [wire (newPkt authResponse (- 1) [])] None"
  let ?c = "\<lambda>r. Password (bytes ''pw'') (connected r)"
  let ?c1 = "\<lambda>r. (?c r)\<lparr>conn := Conn (wire (newPkt auth 0 (bytes ''pw''))) None, reqID := 1\<rparr>"
  have pw: "pwd (?c r) \<noteq> []" for r by (simp add: run_defs)
  have wr: "writePkt (?c r) auth (pwd (?c r)) = (None, ?c1 r)" for r
    by (simp add: run_defs)
  have a1: "decodes (reader (?c ?ra)) (newPkt responseValue 0 []) ?rb" by code_simp
  have a2: "decodes ?rb (newPkt authResponse 0 []) (Reader [] None)" by code_simp
  have a3: "decodes (reader (?c ?rb)) (newPkt authResponse 0 []) (Reader [] None)" by code_simp
  have a4: "decodes (reader (?c ?rc)) (newPkt authResponse (- 1) []) (Reader [] None)" by code_simp
  have t: "Type (newPkt t i b) = t" "ID (newPkt t i b) = i" for t i b
    by (simp_all add: newPkt_def)
  have ne: "(- 1 :: int32) \<noteq> 0" by simp
  have u: "(?c1 r)\<lparr>reader := r'\<rparr> = ?c1 r'" for r r'
    by (simp add: run_defs)
  from auth_handshake [OF pw wr, of ?ra "newPkt responseValue 0 []" ?rb "newPkt authResponse 0 []"
      "Reader [] None"] a1 a2
  have "Client_auth (?c ?ra) = Some (None, ?c1 (Reader [] None))"
    unfolding t u by blast
  moreover from auth_handshake [OF pw wr, of ?rb "newPkt authResponse 0 []" "Reader [] None"] a3
  have "Client_auth (?c ?rb) = Some (None, ?c1 (Reader [] None))"
    unfolding t u by blast
  moreover from auth_handshake [OF pw wr, of ?rc "newPkt authResponse (- 1) []" "Reader [] None"]
    a4 ne
  have "Client_auth (?c ?rc) = Some (Some ErrAuthFailure, ?c1 (Reader [] None))"
    unfolding t u by blast
  ultimately show ?thesis by simp
qed

section \<open>Rejected responses\<close>




section \<open>Executing a command\<close>

text \<open>
  C7. A command string with a byte of 0x80 or more makes \<open>ExecCmd\<close> and \<open>Exec\<close> return the
  non-ASCII error and the client as it was: nothing is written and the request id is
  unchanged. The loop of \<open>ExecCmd\<close> meets a rune of 0x80 or more exactly when the string has
  such a byte.
\<close>

theorem non_ascii_rejected:
  "((\<exists>b\<in>set (String fmtv k). 0x80 \<le> b) \<longrightarrow> ExecCmd fmtv c k = Some (Inl ErrNonASCII, c))
   \<and> ((\<exists>b\<in>set s. 0x80 \<le> b) \<longrightarrow> Exec fmtv c s = Some (Inl ErrNonASCII, c))
   \<and> (nonASCII s \<longleftrightarrow> (\<exists>b\<in>set s. 0x80 \<le> b))"
  by (simp add: Exec_def ExecCmd_def nonASCII_iff String_NewCmd)

theorem non_ascii_rejected_witness:
  "(\<exists>b\<in>set [0xC3, 0xA9, 0x63, 0x68, 0x6F :: byte]. 0x80 \<le> b)
   \<and> Exec bytes \<lparr>conn = Conn [] None, pwd = [], reader = Reader [] None, reqID = 0,
                   c_read = ReadMulti, c_write = WriteMulti\<rparr> [0xC3, 0xA9, 0x63, 0x68, 0x6F] =
       Some (Inl ErrNonASCII,
             \<lparr>conn = Conn [] None, pwd = [], reader = Reader [] None, reqID = 0,
                c_read = ReadMulti, c_write = WriteMulti\<rparr>)"
proof -
  have h: "\<exists>b\<in>set [0xC3, 0xA9, 0x63, 0x68, 0x6F :: byte]. 0x80 \<le> b" by simp
  with non_ascii_rejected [where s = "[0xC3, 0xA9, 0x63, 0x68, 0x6F]" and fmtv = bytes]
  show ?thesis by blast
qed

text \<open>
  C8. In single-packet mode, a request whose command is ASCII and whose packet is written
  without error: exactly the bytes of one packet with the current id are sent, the id counter
  goes up by one, one packet is decoded, and its body is returned when its id is the id of the
  request; any other id is a malformed-response error, and an error of the decode is handed up.
\<close>

theorem single_packet_exchange:
  assumes "\<forall>b\<in>set (String fmtv k). b < 0x80"
    and "writePkt (DisableMultiPacket c) execCommand (String fmtv k) = (None, c1)"
  shows "sent (conn c1) = sent (conn c) @ wire (newPkt execCommand (reqID c) (String fmtv k))
       \<and> reqID c1 = reqID c + 1
       \<and> ExecCmd fmtv (DisableMultiPacket c) k =
           (case ReadFrom pkt0 (reader c) of
              None \<Rightarrow> None
            | Some (n, Some err, p, r') \<Rightarrow> Some (Inl err, c1\<lparr>reader := r'\<rparr>)
            | Some (n, None, p, r') \<Rightarrow>
                if ID p = reqID c then Some (Inr (body p), c1\<lparr>reader := r'\<rparr>)
                else Some (Inl (ErrMalformedResponse (''unexpected packet id '' @ fmt_int32 (ID p))),
                           c1\<lparr>reader := r'\<rparr>))"
proof -
  note ok = writePkt_ok [OF assms(2)]
  have ascii: "\<not> nonASCII (String fmtv k)"
    using assms(1) by (auto simp: nonASCII_iff not_le)
  have "ExecCmd fmtv (DisableMultiPacket c) k = readSingle c1 (reqID c)"
    using ascii assms(2) ok(7)
    by (simp add: ExecCmd_def call_write_def call_read_def DisableMultiPacket_def)
  also have "\<dots> = (case ReadFrom pkt0 (reader c) of
              None \<Rightarrow> None
            | Some (n, Some err, p, r') \<Rightarrow> Some (Inl err, c1\<lparr>reader := r'\<rparr>)
            | Some (n, None, p, r') \<Rightarrow>
                if ID p = reqID c then Some (Inr (body p), c1\<lparr>reader := r'\<rparr>)
                else Some (Inl (ErrMalformedResponse (''unexpected packet id '' @ fmt_int32 (ID p))),
                           c1\<lparr>reader := r'\<rparr>))"
    using ok(2,3)
    by (auto simp: readSingle_def readPkt_def setDeadline_def SetDeadline_def Body_def
        DisableMultiPacket_def split: option.splits prod.splits)
  finally show ?thesis using ok(4,5) by (simp add: DisableMultiPacket_def)
qed

theorem single_packet_exchange_witness:
  "String bytes (WithArgs (NewCmd (bytes ''echo'')) [Str (bytes ''test me'')]) = bytes ''echo test me''
   \<and> ExecCmd bytes
        (DisableMultiPacket (connected (Reader [wire (newPkt responseValue 0 (bytes ''test me''))] None)))
        (WithArgs (NewCmd (bytes ''echo'')) [Str (bytes ''test me'')]) =
      Some (Inr (bytes ''test me''),
        (DisableMultiPacket (connected (Reader [] None)))
          \<lparr>conn := Conn (wire (newPkt execCommand 0 (bytes ''echo test me''))) None, reqID := 1\<rparr>)"
proof -
  let ?k = "WithArgs (NewCmd (bytes ''echo'')) [Str (bytes ''test me'')] :: string Cmd"
  let ?r = "Reader [wire (newPkt responseValue 0 (bytes ''test me''))] None"
  let ?c1 = "\<lambda>r. (DisableMultiPacket (connected r))
      \<lparr>conn := Conn (wire (newPkt execCommand 0 (bytes ''echo test me''))) None, reqID := 1\<rparr>"
  have s: "String bytes ?k = bytes ''echo test me''"
    by (simp add: String_space_joined WithArgs_def NewCmd_def printArg_def bytes_def)
  have h1: "\<forall>b\<in>set (String bytes ?k). b < 0x80"
    unfolding s by (simp add: bytes_def)
  have h2: "writePkt (DisableMultiPacket (connected ?r)) execCommand (String bytes ?k) = (None, ?c1 ?r)"
    unfolding s by (simp add: run_defs)
  have rd: "ReadFrom pkt0 (reader (connected ?r)) =
      Some (21, None, newPkt responseValue 0 (bytes ''test me''), Reader [] None)"
    by code_simp
  from single_packet_exchange [OF h1 h2, THEN conjunct2, THEN conjunct2]
  have "ExecCmd bytes (DisableMultiPacket (connected ?r)) ?k =
      Some (Inr (bytes ''test me''), ?c1 (Reader [] None))"
    unfolding rd by (simp add: connected_def DisableMultiPacket_def)
  with s show ?thesis by simp
qed

text \<open>
  C9, as stated: the rendering has no trailing whitespace. It fails when the last argument is
  the empty string: the separator before it ends the result.
\<close>

theorem String_trailing_space:
  "String bytes (WithArgs (NewCmd (bytes ''echo'')) [Str []]) = bytes ''echo ''"
  by (simp add: String_def Sprintln_def WithArgs_def NewCmd_def printArg_def TrimSuffix_def
      HasSuffix_def bytes_def)

text \<open>
  C9, amended: \<open>String\<close> renders the verb followed by each argument, in order, with a single
  space between neighbours and nothing after the last operand; when the last operand is not
  empty, the result ends with the last character of that operand.
\<close>

theorem String_renders_operands:
  "String fmtv c = space_joined (cmd c # map (printArg fmtv) (args c))
   \<and> (last (cmd c # map (printArg fmtv) (args c)) \<noteq> [] \<longrightarrow>
        last (String fmtv c) = last (last (cmd c # map (printArg fmtv) (args c))))"
  using last_space_joined [of "cmd c # map (printArg fmtv) (args c)"]
  by (simp add: String_space_joined)

theorem String_renders_operands_witness:
  "last (cmd (WithArgs (NewCmd (bytes ''echo'')) [Str (bytes ''test me''), Val ''now''])
         # map (printArg bytes) (args (WithArgs (NewCmd (bytes ''echo'')) [Str (bytes ''test me''), Val ''now'']))) \<noteq> []
   \<and> String bytes (WithArgs (NewCmd (bytes ''echo'')) [Str (bytes ''test me''), Val ''now''])
       = bytes ''echo test me now''
   \<and> last (String bytes (WithArgs (NewCmd (bytes ''echo'')) [Str (bytes ''test me''), Val ''now'']))
       = of_char CHR ''w''"
proof -
  let ?c = "WithArgs (NewCmd (bytes ''echo'')) [Str (bytes ''test me''), Val ''now'']"
  have h: "last (cmd ?c # map (printArg bytes) (args ?c)) \<noteq> []"
    by (simp add: WithArgs_def NewCmd_def printArg_def bytes_def)
  have e: "space_joined (cmd ?c # map (printArg bytes) (args ?c)) = bytes ''echo test me now''"
    by (simp add: WithArgs_def NewCmd_def printArg_def bytes_def)
  have l: "last (last (cmd ?c # map (printArg bytes) (args ?c))) = of_char CHR ''w''"
    by (simp add: WithArgs_def NewCmd_def printArg_def bytes_def)
  from String_renders_operands [of bytes ?c] h e l show ?thesis by (simp add: bytes_def)
qed

text \<open>
  C10. In single-packet mode the type of the response is not looked at: a decoded packet whose
  id is the expected one has its body returned whatever its type, while \<open>readMulti\<close> fails with
  "unexpected type" on every packet whose type is not response-value.
\<close>

theorem readSingle_ignores_type:
  assumes "fault (conn c) = None" and "decodes (reader c) p r'"
  shows "(ID p = N \<longrightarrow> readSingle c N = Some (Inr (body p), c\<lparr>reader := r'\<rparr>))
       \<and> (Type p \<noteq> responseValue \<longrightarrow>
            readMulti c N = Some (Inl (ErrMalformedResponse ''unexpected type''), c\<lparr>reader := r'\<rparr>))"
  using readPkt_decodes [OF assms]
  by (simp add: readSingle_def Body_def readMulti_def readMulti_loop.simps)

theorem readSingle_ignores_type_witness:
  "readSingle (connected (Reader [wire (newPkt auth 5 (bytes ''hi''))] None)) 5 =
     Some (Inr (bytes ''hi''), connected (Reader [] None))
   \<and> readMulti (connected (Reader [wire (newPkt auth 5 (bytes ''hi''))] None)) 5 =
     Some (Inl (ErrMalformedResponse ''unexpected type''), connected (Reader [] None))"
proof -
  let ?p = "newPkt auth 5 (bytes ''hi'')"
  let ?r = "Reader [wire ?p] None"
  have f: "fault (conn (connected ?r)) = None" by (simp add: connected_def)
  have d: "decodes (reader (connected ?r)) ?p (Reader [] None)" by code_simp
  have h: "ID ?p = 5" "Type ?p \<noteq> responseValue" "body ?p = bytes ''hi''"
    by (simp_all add: newPkt_def auth_def responseValue_def)
  have u: "(connected ?r)\<lparr>reader := Reader [] None\<rparr> = connected (Reader [] None)"
    by (simp add: connected_def)
  from readSingle_ignores_type [OF f d, of 5] h show ?thesis
    unfolding u by simp
qed

end
